theory Spec2Isabelle
  imports Complex_Main
begin

section \<open>Topology model\<close>

text \<open>
  Shallow embedding of \<^verbatim>\<open>logdevice/common/configuration/ServerConfig.cpp\<close> and of
  \<^verbatim>\<open>logdevice/server/rebuilding/RebuildingPlan.h\<close>.

  Node indices and generations are small non-negative machine integers in the source
  (\<^verbatim>\<open>node_index_t\<close>, \<^verbatim>\<open>node_gen_t\<close>); no arithmetic that could wrap is done on them in
  the modelled code, so they are natural numbers here. A \<^verbatim>\<open>Sockaddr\<close> is only compared
  for equality and is a string. Weights are \<^verbatim>\<open>double\<close> in the source and real numbers
  here: rounding, infinities and NaN are not modelled.
\<close>

type_synonym node_index_t = nat
type_synonym node_gen_t = nat
type_synonym shard_index_t = nat
type_synonym Sockaddr = string

text \<open>
  The values of \<^verbatim>\<open>err\<close> that the modelled functions set, and the two ways a call can
  abort: a failed \<^verbatim>\<open>ld_check\<close> and the exception of \<^verbatim>\<open>unordered_map::at\<close>.

  Modelled from the spec: the macro \<^verbatim>\<open>ld_check\<close> is not part of the sources. A check
  that fails is a fatal invariant violation: the operation aborts (\<open>Inl CHECK_FAILED\<close>).
\<close>

datatype error = NOTFOUND | INVALID_PARAM | INVALID_CONFIG | CHECK_FAILED | OUT_OF_RANGE

text \<open>
  Modelled from the spec: \<^verbatim>\<open>NodeID.h\<close> is not part of the sources. A node ID is either
  built from an index and a generation (\<^verbatim>\<open>NodeID(i, gen)\<close>, a real node reference) or is
  the default-constructed, invalid one (\<^verbatim>\<open>NodeID()\<close>, which pads the sequencer arrays).
\<close>

datatype NodeID = NodeID node_index_t node_gen_t | NodeID_default

fun isNodeID :: "NodeID \<Rightarrow> bool" where
  "isNodeID (NodeID i g) = True"
| "isNodeID NodeID_default = False"

fun index :: "NodeID \<Rightarrow> node_index_t" where
  "index (NodeID i g) = i"
| "index NodeID_default = 0"

fun generation_of :: "NodeID \<Rightarrow> node_gen_t" where
  "generation_of (NodeID i g) = g"
| "generation_of NodeID_default = 0"

text \<open>
  A location is the list of its scope labels, broadest first (region, data center,
  cluster, row, rack).
\<close>

type_synonym NodeLocation = "string list"

text \<open>
  Modelled from the spec: \<^verbatim>\<open>Node.h\<close> is not part of the sources. The record keeps the
  members that the modelled code reads (\<^verbatim>\<open>address\<close>, \<^verbatim>\<open>generation\<close>, \<^verbatim>\<open>location\<close>) and, as
  fields of the same names, the results of the member functions that it calls:
  \<^verbatim>\<open>isSequencingEnabled()\<close>, \<^verbatim>\<open>getSequencerWeight()\<close> and \<^verbatim>\<open>isWritableStorageNode()\<close>
  (has the storage role and a storage state that permits writes).
\<close>

record Node =
  address :: Sockaddr
  generation :: node_gen_t
  location :: "NodeLocation option"
  isSequencingEnabled :: bool
  getSequencerWeight :: real
  isWritableStorageNode :: bool

text \<open>
  \<^verbatim>\<open>Nodes\<close> is \<^verbatim>\<open>std::unordered_map<node_index_t, Node>\<close>: the list enumerates its
  entries in iteration order, \<^verbatim>\<open>find\<close> is \<^const>\<open>map_of\<close>. The keys of a map are distinct;
  theorems that depend on it say so (\<open>distinct (map fst ns)\<close>).
\<close>

type_synonym Nodes = "(node_index_t \<times> Node) list"

subsection \<open>Node lookup\<close>

definition getNode_index :: "Nodes \<Rightarrow> node_index_t \<Rightarrow> error + Node" where
  "getNode_index ns i =
     (case map_of ns i of
        None \<Rightarrow> Inl NOTFOUND
      | Some n \<Rightarrow> Inr n)"

definition getNode :: "Nodes \<Rightarrow> NodeID \<Rightarrow> error + Node" where
  "getNode ns ident =
     (if \<not> isNodeID ident then Inl INVALID_PARAM
      else
        (case getNode_index ns (index ident) of
           Inl e \<Rightarrow> Inl NOTFOUND
         | Inr node \<Rightarrow>
             if generation_of ident \<noteq> 0 \<and> generation node \<noteq> generation_of ident
             then Inl NOTFOUND
             else Inr node))"

section \<open>Config snapshot\<close>

text \<open>
  \<^verbatim>\<open>SequencersConfig\<close>: two parallel arrays indexed by node index.
\<close>

record SequencersConfig =
  nodes :: "NodeID list"
  weights :: "real list"

text \<open>
  The sub-configs that the modelled code only stores and passes on are values of one
  opaque type \<open>'o\<close>. Of the metadata-logs config only the nodeset is read, and of the
  zookeeper config nothing is; the custom fields are a JSON object.
\<close>

record 'o MetaDataLogsConfig =
  metadata_nodes :: "node_index_t list"
  metadata_logs_rest :: 'o

record ZookeeperConfig =
  quorum :: "Sockaddr list"
  session_timeout :: nat

datatype dynamic =
  DNull | DBool bool | DInt int | DString string
  | DArray "dynamic list" | DObject "(string \<times> dynamic) list"

record 'o ServerConfig =
  clusterName :: string
  clusterCreationTime :: "nat option"
  nodesConfig :: Nodes
  metaDataLogsConfig :: "'o MetaDataLogsConfig"
  principalsConfig :: 'o
  securityConfig :: 'o
  trafficShapingConfig :: 'o
  traceLoggerConfig :: 'o
  zookeeperConfig :: ZookeeperConfig
  serverSettingsConfig :: 'o
  clientSettingsConfig :: 'o
  internalLogs :: 'o
  ns_delimiter :: string
  customFields :: "string \<rightharpoonup> dynamic"
  sequencersConfig :: SequencersConfig
  addrToIndex :: "Sockaddr \<rightharpoonup> node_index_t"
  version :: nat
  my_node_id :: NodeID
  server_origin :: NodeID
  main_config_metadata :: "'o option"
  included_config_metadata :: "'o option"

subsection \<open>Construction\<close>

text \<open>
  Modelled from the spec: \<^verbatim>\<open>getMaxNodeIdx\<close> is declared in \<^verbatim>\<open>ServerConfig.h\<close>, which is
  not part of the sources. It is the largest node index of the nodes map, 0 for an empty
  map.
\<close>

definition getMaxNodeIdx :: "Nodes \<Rightarrow> nat" where
  "getMaxNodeIdx ns = fold (\<lambda>(i, n) r. max r i) ns 0"

text \<open>
  \<^verbatim>\<open>unordered_map::insert\<close>: an existing key keeps its value and the call reports
  \<open>False\<close>.
\<close>

definition insert_addr ::
  "(Sockaddr \<rightharpoonup> node_index_t) \<Rightarrow> Sockaddr \<Rightarrow> node_index_t \<Rightarrow> (Sockaddr \<rightharpoonup> node_index_t) \<times> bool" where
  "insert_addr m a i =
     (case m a of
        None \<Rightarrow> (m(a \<mapsto> i), True)
      | Some j \<Rightarrow> (m, False))"

text \<open>
  The loop of the constructor over the nodes map: each node's address is indexed, and a
  node with sequencing enabled is entered in the sequencers config at its index. A failed
  \<^verbatim>\<open>ld_check\<close> aborts the construction.
\<close>

definition set_sequencer :: "node_index_t \<Rightarrow> Node \<Rightarrow> SequencersConfig \<Rightarrow> SequencersConfig" where
  "set_sequencer i node sc =
     (if isSequencingEnabled node
      then sc\<lparr>nodes := (nodes sc)[i := NodeID i (generation node)],
              weights := (weights sc)[i := getSequencerWeight node]\<rparr>
      else sc)"

fun index_nodes ::
  "Nodes \<Rightarrow> (Sockaddr \<rightharpoonup> node_index_t) \<Rightarrow> SequencersConfig
     \<Rightarrow> error + (Sockaddr \<rightharpoonup> node_index_t) \<times> SequencersConfig" where
  "index_nodes [] a2i sc = Inr (a2i, sc)"
| "index_nodes ((i, node) # rest) a2i sc =
     (case insert_addr a2i (address node) i of
        (a2i', inserted) \<Rightarrow>
          if \<not> inserted then Inl CHECK_FAILED
          else index_nodes rest a2i' (set_sequencer i node sc))"

text \<open>
  \<^verbatim>\<open>std::max_element\<close>, by value: \<open>None\<close> is the end iterator of an empty range.
\<close>

fun max_element_from :: "real \<Rightarrow> real list \<Rightarrow> real" where
  "max_element_from largest [] = largest"
| "max_element_from largest (w # ws) =
     max_element_from (if largest < w then w else largest) ws"

definition max_element :: "real list \<Rightarrow> real option" where
  "max_element ws =
     (case ws of
        [] \<Rightarrow> None
      | w # rest \<Rightarrow> Some (max_element_from w rest))"

definition scale_weights :: "real list \<Rightarrow> real list" where
  "scale_weights ws =
     (case max_element ws of
        None \<Rightarrow> ws
      | Some max_weight \<Rightarrow>
          if max_weight > 0 then map (\<lambda>weight. weight / max_weight) ws else ws)"

text \<open>
  The derived members: the address index and the sequencers config with its weights
  scaled.
\<close>

definition derive_indices ::
  "Nodes \<Rightarrow> error + (Sockaddr \<rightharpoonup> node_index_t) \<times> SequencersConfig" where
  "derive_indices ns =
     (let max_node = getMaxNodeIdx ns in
      case index_nodes ns Map.empty
             \<lparr>nodes = replicate (max_node + 1) NodeID_default,
              weights = replicate (max_node + 1) 0\<rparr> of
        Inl e \<Rightarrow> Inl e
      | Inr (a2i, sc) \<Rightarrow> Inr (a2i, sc\<lparr>weights := scale_weights (weights sc)\<rparr>))"

text \<open>
  The constructor, with the arguments in the order of the source (primed, where the
  source names them like the member; the members drop the trailing underscore of the
  source, which an Isabelle name cannot end with). The members that it
  does not initialise start at their default values: the version at 0 (every modelled
  caller sets it at once), the two node IDs invalid, the config metadata empty.
\<close>

definition ServerConfig_ctor ::
  "string \<Rightarrow> Nodes \<Rightarrow> 'o MetaDataLogsConfig \<Rightarrow> 'o \<Rightarrow> 'o \<Rightarrow> 'o \<Rightarrow> 'o \<Rightarrow> ZookeeperConfig
     \<Rightarrow> 'o \<Rightarrow> 'o \<Rightarrow> 'o \<Rightarrow> nat option \<Rightarrow> (string \<rightharpoonup> dynamic) \<Rightarrow> string
     \<Rightarrow> error + 'o ServerConfig" where
  "ServerConfig_ctor cluster_name nodesConfig' metaDataLogsConfig' principalsConfig'
     securityConfig' traceLoggerConfig' trafficShapingConfig' zookeeperConfig'
     serverSettingsConfig' clientSettingsConfig' internalLogs' clusterCreationTime'
     customFields' ns_delimiter' =
     (case derive_indices nodesConfig' of
        Inl e \<Rightarrow> Inl e
      | Inr (a2i, sc) \<Rightarrow>
          Inr \<lparr>clusterName = cluster_name,
               clusterCreationTime = clusterCreationTime',
               nodesConfig = nodesConfig',
               metaDataLogsConfig = metaDataLogsConfig',
               principalsConfig = principalsConfig',
               securityConfig = securityConfig',
               trafficShapingConfig = trafficShapingConfig',
               traceLoggerConfig = traceLoggerConfig',
               zookeeperConfig = zookeeperConfig',
               serverSettingsConfig = serverSettingsConfig',
               clientSettingsConfig = clientSettingsConfig',
               internalLogs = internalLogs',
               ns_delimiter = ns_delimiter',
               customFields = customFields',
               sequencersConfig = sc,
               addrToIndex = a2i,
               version = 0,
               my_node_id = NodeID_default,
               server_origin = NodeID_default,
               main_config_metadata = None,
               included_config_metadata = None\<rparr>)"

definition fromData ::
  "string \<Rightarrow> Nodes \<Rightarrow> 'o MetaDataLogsConfig \<Rightarrow> 'o \<Rightarrow> 'o \<Rightarrow> 'o \<Rightarrow> 'o \<Rightarrow> ZookeeperConfig
     \<Rightarrow> 'o \<Rightarrow> 'o \<Rightarrow> 'o \<Rightarrow> nat option \<Rightarrow> (string \<rightharpoonup> dynamic) \<Rightarrow> string
     \<Rightarrow> error + 'o ServerConfig" where
  "fromData cluster_name nodes_arg metadata_logs principalsConfig' securityConfig'
     traceLoggerConfig' trafficShapingConfig' zookeeper serverSettingsConfig'
     clientSettingsConfig' internalLogs' clusterCreationTime' customFields' ns_delimiter' =
     ServerConfig_ctor cluster_name nodes_arg metadata_logs principalsConfig' securityConfig'
       traceLoggerConfig' trafficShapingConfig' zookeeper serverSettingsConfig'
       clientSettingsConfig' internalLogs' clusterCreationTime' customFields' ns_delimiter'"

subsection \<open>Reverse lookup by address\<close>

text \<open>
  \<^verbatim>\<open>getNodeID\<close> returns 0 and stores the node ID through its out-parameter (\<open>Inr\<close>), or
  returns -1 with \<^verbatim>\<open>err = NOTFOUND\<close> (\<open>Inl NOTFOUND\<close>).
\<close>

definition getNodeID :: "'o ServerConfig \<Rightarrow> Sockaddr \<Rightarrow> error + NodeID" where
  "getNodeID c a =
     (case addrToIndex c a of
        None \<Rightarrow> Inl NOTFOUND
      | Some idx \<Rightarrow>
          (case map_of (nodesConfig c) idx of
             None \<Rightarrow> Inl OUT_OF_RANGE
           | Some n \<Rightarrow>
               if address n \<noteq> a then Inl CHECK_FAILED
               else Inr (NodeID idx (generation n))))"

subsection \<open>Derive operations\<close>

text \<open>
  Modelled from the spec: the setters and \<^verbatim>\<open>hasMyNodeID\<close> are defined in
  \<^verbatim>\<open>ServerConfig.h\<close>, which is not part of the sources. Each setter stores its argument
  in the member it names; a snapshot has a node ID of its own when that ID is a real
  node reference.
\<close>

definition setVersion :: "nat \<Rightarrow> 'o ServerConfig \<Rightarrow> 'o ServerConfig" where
  "setVersion v c = c\<lparr>version := v\<rparr>"

definition hasMyNodeID :: "'o ServerConfig \<Rightarrow> bool" where
  "hasMyNodeID c = isNodeID (my_node_id c)"

definition setMyNodeID :: "NodeID \<Rightarrow> 'o ServerConfig \<Rightarrow> 'o ServerConfig" where
  "setMyNodeID ident c = c\<lparr>my_node_id := ident\<rparr>"

definition setServerOrigin :: "NodeID \<Rightarrow> 'o ServerConfig \<Rightarrow> 'o ServerConfig" where
  "setServerOrigin ident c = c\<lparr>server_origin := ident\<rparr>"

definition setMainConfigMetadata :: "'o option \<Rightarrow> 'o ServerConfig \<Rightarrow> 'o ServerConfig" where
  "setMainConfigMetadata md c = c\<lparr>main_config_metadata := md\<rparr>"

definition setIncludedConfigMetadata :: "'o option \<Rightarrow> 'o ServerConfig \<Rightarrow> 'o ServerConfig" where
  "setIncludedConfigMetadata md c = c\<lparr>included_config_metadata := md\<rparr>"

definition copy :: "'o ServerConfig \<Rightarrow> error + 'o ServerConfig" where
  "copy s =
     (case fromData (clusterName s) (nodesConfig s) (metaDataLogsConfig s)
             (principalsConfig s) (securityConfig s) (traceLoggerConfig s)
             (trafficShapingConfig s) (zookeeperConfig s) (serverSettingsConfig s)
             (clientSettingsConfig s) (internalLogs s) (clusterCreationTime s)
             (customFields s) (ns_delimiter s) of
        Inl e \<Rightarrow> Inl e
      | Inr config \<Rightarrow>
          (let config = setVersion (version s) config;
               config = (if hasMyNodeID s then setMyNodeID (my_node_id s) config else config);
               config = setServerOrigin (server_origin s) config;
               config = setMainConfigMetadata (main_config_metadata s) config;
               config = setIncludedConfigMetadata (included_config_metadata s) config
           in Inr config))"

definition withNodes :: "Nodes \<Rightarrow> 'o ServerConfig \<Rightarrow> error + 'o ServerConfig" where
  "withNodes nodes_arg s =
     (let metaDataLogsConfig' = metaDataLogsConfig s;
          metadata_nodes' =
            filter (\<lambda>n. map_of nodes_arg n \<noteq> None) (metadata_nodes metaDataLogsConfig');
          metaDataLogsConfig' =
            (if metadata_nodes metaDataLogsConfig' \<noteq> metadata_nodes'
             then metaDataLogsConfig'\<lparr>metadata_nodes := metadata_nodes'\<rparr>
             else metaDataLogsConfig')
      in case fromData (clusterName s) nodes_arg metaDataLogsConfig'
                (principalsConfig s) (securityConfig s) (traceLoggerConfig s)
                (trafficShapingConfig s) (zookeeperConfig s) (serverSettingsConfig s)
                (clientSettingsConfig s) (internalLogs s) (clusterCreationTime s)
                (customFields s) (ns_delimiter s) of
           Inl e \<Rightarrow> Inl e
         | Inr config \<Rightarrow>
             (let config = setVersion (version s) config;
                  config = (if hasMyNodeID s then setMyNodeID (my_node_id s) config else config);
                  config = setMainConfigMetadata (main_config_metadata s) config;
                  config = setIncludedConfigMetadata (included_config_metadata s) config
              in Inr config))"

definition withZookeeperConfig :: "ZookeeperConfig \<Rightarrow> 'o ServerConfig \<Rightarrow> error + 'o ServerConfig" where
  "withZookeeperConfig zk s =
     (case fromData (clusterName s) (nodesConfig s) (metaDataLogsConfig s)
             (principalsConfig s) (securityConfig s) (traceLoggerConfig s)
             (trafficShapingConfig s) zk (serverSettingsConfig s)
             (clientSettingsConfig s) (internalLogs s) (clusterCreationTime s)
             (customFields s) (ns_delimiter s) of
        Inl e \<Rightarrow> Inl e
      | Inr config \<Rightarrow>
          (let config = setVersion (version s) config;
               config = (if hasMyNodeID s then setMyNodeID (my_node_id s) config else config);
               config = setMainConfigMetadata (main_config_metadata s) config;
               config = setIncludedConfigMetadata (included_config_metadata s) config
           in Inr config))"

definition withVersion :: "nat \<Rightarrow> 'o ServerConfig \<Rightarrow> error + 'o ServerConfig" where
  "withVersion version' s =
     (case fromData (clusterName s) (nodesConfig s) (metaDataLogsConfig s)
             (principalsConfig s) (securityConfig s) (traceLoggerConfig s)
             (trafficShapingConfig s) (zookeeperConfig s) (serverSettingsConfig s)
             (clientSettingsConfig s) (internalLogs s) (clusterCreationTime s)
             (customFields s) (ns_delimiter s) of
        Inl e \<Rightarrow> Inl e
      | Inr config \<Rightarrow>
          (let config = setVersion version' config;
               config = (if hasMyNodeID s then setMyNodeID (my_node_id s) config else config);
               config = setMainConfigMetadata (main_config_metadata s) config;
               config = setIncludedConfigMetadata (included_config_metadata s) config
           in Inr config))"

subsection \<open>Loading from a configuration document\<close>

definition config_recognized_keys :: "string set" where
  "config_recognized_keys =
     {''client_settings'', ''cluster'', ''cluster_creation_time'', ''defaults'',
      ''include_log_config'', ''log_namespace_delimiter'', ''logs'', ''nodes'',
      ''metadata_logs'', ''principals'', ''security_information'', ''server_settings'',
      ''trace-logger'', ''traffic_shaping'', ''version'', ''zookeeper''}"

text \<open>
  The loop of \<^verbatim>\<open>fromJson\<close> over the items of the document: a recognized key is
  skipped, every other item is stored in the custom fields.
\<close>

fun collect_custom_fields ::
  "(string \<times> dynamic) list \<Rightarrow> (string \<rightharpoonup> dynamic) \<Rightarrow> (string \<rightharpoonup> dynamic)" where
  "collect_custom_fields [] custom = custom"
| "collect_custom_fields ((key, val) # rest) custom =
     (if key \<in> config_recognized_keys
      then collect_custom_fields rest custom
      else collect_custom_fields rest (custom(key \<mapsto> val)))"

text \<open>
  Modelled from the spec: the section parsers (\<^verbatim>\<open>ConfigParser.h\<close>, \<^verbatim>\<open>ParsingHelpers.h\<close>)
  and \<^verbatim>\<open>LogsConfig::default_namespace_delimiter_\<close> are not part of the sources.
  \<^verbatim>\<open>getStringFromMap\<close> finds the string stored under a key. The conjunction of the
  thirteen section parsers is the parameter \<open>parseSections\<close> of \<open>fromJson\<close>: it is given
  the items of the document and the namespace delimiter, and returns the parsed sections,
  or \<open>None\<close> when one of the parsers fails. \<open>fromJson\<close> is the overload that takes the
  parsed document, behind the check of the overload that takes its text: a document that
  is not an object is an invalid configuration.
\<close>

definition getStringFromMap :: "(string \<times> dynamic) list \<Rightarrow> string \<Rightarrow> string option" where
  "getStringFromMap items key =
     (case map_of items key of
        Some (DString str) \<Rightarrow> Some str
      | _ \<Rightarrow> None)"

definition default_namespace_delimiter :: string where
  "default_namespace_delimiter = ''/''"

record 'o ParsedSections =
  parsed_clusterName :: string
  parsed_principalsConfig :: 'o
  parsed_version :: nat
  parsed_clusterCreationTime :: "nat option"
  parsed_securityConfig :: 'o
  parsed_trafficShapingConfig :: 'o
  parsed_nodesConfig :: Nodes
  parsed_metaDataLogsConfig :: "'o MetaDataLogsConfig"
  parsed_zookeeperConfig :: ZookeeperConfig
  parsed_serverSettingsConfig :: 'o
  parsed_clientSettingsConfig :: 'o
  parsed_internalLogs :: 'o
  parsed_traceLoggerConfig :: 'o

definition namespace_delimiter :: "(string \<times> dynamic) list \<Rightarrow> error + string" where
  "namespace_delimiter items =
     (case getStringFromMap items ''log_namespace_delimiter'' of
        None \<Rightarrow> Inr default_namespace_delimiter
      | Some ns_delim_fbstr \<Rightarrow>
          if length ns_delim_fbstr > 1 then Inl INVALID_CONFIG else Inr ns_delim_fbstr)"

definition fromJson ::
  "((string \<times> dynamic) list \<Rightarrow> string \<Rightarrow> 'o ParsedSections option) \<Rightarrow> dynamic
     \<Rightarrow> error + 'o ServerConfig" where
  "fromJson parseSections parsed =
     (case parsed of
        DObject items \<Rightarrow>
          (case namespace_delimiter items of
             Inl e \<Rightarrow> Inl e
           | Inr ns_delimiter' \<Rightarrow>
               (case parseSections items ns_delimiter' of
                  None \<Rightarrow> Inl INVALID_CONFIG
                | Some p \<Rightarrow>
                    (case fromData (parsed_clusterName p) (parsed_nodesConfig p)
                            (parsed_metaDataLogsConfig p) (parsed_principalsConfig p)
                            (parsed_securityConfig p) (parsed_traceLoggerConfig p)
                            (parsed_trafficShapingConfig p) (parsed_zookeeperConfig p)
                            (parsed_serverSettingsConfig p) (parsed_clientSettingsConfig p)
                            (parsed_internalLogs p) (parsed_clusterCreationTime p)
                            (collect_custom_fields items Map.empty) ns_delimiter' of
                       Inl e \<Rightarrow> Inl e
                     | Inr config \<Rightarrow> Inr (setVersion (parsed_version p) config))))
      | _ \<Rightarrow> Inl INVALID_CONFIG)"

section \<open>Replication checker\<close>

text \<open>
  Modelled from the spec: \<^verbatim>\<open>ReplicationProperty.h\<close>, \<^verbatim>\<open>FailureDomainNodeSet.h\<close>,
  \<^verbatim>\<open>NodeLocation.h\<close> and \<^verbatim>\<open>ShardID.h\<close> are not part of the sources; only
  \<^verbatim>\<open>validStorageSet\<close>, which uses them, is.

  The scopes are those of the spec's hierarchy. A replication property lists the
  required count of every scope it constrains, and is valid iff every count is positive.
  The failure domain of a shard at a scope is the prefix of its node's location down to
  that scope; at node scope every node is a domain of its own. A failure domain node set
  keeps the shards of the storage set whose node is in the topology, and an attribute per
  shard, unset at first; it can replicate with an attribute value iff at every scope of
  the replication property the shards carrying that value lie in at least the required
  number of distinct domains.
\<close>

datatype NodeLocationScope = NODE | RACK | ROW | CLUSTER | DATA_CENTER | REGION

type_synonym ReplicationProperty = "(NodeLocationScope \<times> nat) list"

record ShardID =
  node_of :: node_index_t
  shard_of :: shard_index_t

type_synonym StorageSet = "ShardID list"

definition isValid :: "ReplicationProperty \<Rightarrow> bool" where
  "isValid replication = list_all (\<lambda>(scope, required). 0 < required) replication"

fun scope_labels :: "NodeLocationScope \<Rightarrow> nat" where
  "scope_labels REGION = 1"
| "scope_labels DATA_CENTER = 2"
| "scope_labels CLUSTER = 3"
| "scope_labels ROW = 4"
| "scope_labels RACK = 5"
| "scope_labels NODE = 5"

type_synonym failure_domain = "NodeLocation option \<times> node_index_t option"

definition domain_of :: "NodeLocationScope \<Rightarrow> ShardID \<Rightarrow> Node \<Rightarrow> failure_domain" where
  "domain_of scope s n =
     (map_option (take (scope_labels scope)) (location n),
      if scope = NODE then Some (node_of s) else None)"

record FailureDomainNodeSet =
  fd_shards :: "(ShardID \<times> Node) list"
  fd_replication :: ReplicationProperty
  fd_attribute :: "ShardID \<rightharpoonup> bool"

definition FailureDomainNodeSet_ctor ::
  "StorageSet \<Rightarrow> Nodes \<Rightarrow> ReplicationProperty \<Rightarrow> FailureDomainNodeSet" where
  "FailureDomainNodeSet_ctor storage_set cluster_nodes replication =
     \<lparr>fd_shards =
        concat (map (\<lambda>s. case map_of cluster_nodes (node_of s) of
                            None \<Rightarrow> []
                          | Some n \<Rightarrow> [(s, n)]) storage_set),
      fd_replication = replication,
      fd_attribute = Map.empty\<rparr>"

definition setShardAttribute :: "FailureDomainNodeSet \<Rightarrow> ShardID \<Rightarrow> bool \<Rightarrow> FailureDomainNodeSet" where
  "setShardAttribute fd s attr = fd\<lparr>fd_attribute := (fd_attribute fd)(s \<mapsto> attr)\<rparr>"

definition domains_with ::
  "FailureDomainNodeSet \<Rightarrow> bool \<Rightarrow> NodeLocationScope \<Rightarrow> failure_domain list" where
  "domains_with fd attr scope =
     remdups (map (\<lambda>(s, n). domain_of scope s n)
                (filter (\<lambda>(s, n). fd_attribute fd s = Some attr) (fd_shards fd)))"

definition canReplicate :: "FailureDomainNodeSet \<Rightarrow> bool \<Rightarrow> bool" where
  "canReplicate fd attr =
     list_all (\<lambda>(scope, required). required \<le> length (domains_with fd attr scope))
       (fd_replication fd)"

text \<open>
  \<^verbatim>\<open>ServerConfig::validStorageSet\<close>, from the source. The loop over the storage set
  returns \<open>None\<close> where the source returns \<open>false\<close> from inside it.
\<close>

fun tag_writable ::
  "Nodes \<Rightarrow> bool \<Rightarrow> StorageSet \<Rightarrow> FailureDomainNodeSet \<Rightarrow> FailureDomainNodeSet option" where
  "tag_writable cluster_nodes strict [] failure_domain = Some failure_domain"
| "tag_writable cluster_nodes strict (s # rest) failure_domain =
     (case map_of cluster_nodes (node_of s) of
        None \<Rightarrow>
          if strict then None
          else tag_writable cluster_nodes strict rest failure_domain
      | Some n \<Rightarrow>
          if isWritableStorageNode n
          then tag_writable cluster_nodes strict rest (setShardAttribute failure_domain s True)
          else tag_writable cluster_nodes strict rest failure_domain)"

definition validStorageSet :: "Nodes \<Rightarrow> StorageSet \<Rightarrow> ReplicationProperty \<Rightarrow> bool \<Rightarrow> bool" where
  "validStorageSet cluster_nodes storage_set replication strict =
     (if \<not> isValid replication then False
      else
        (case tag_writable cluster_nodes strict storage_set
                (FailureDomainNodeSet_ctor storage_set cluster_nodes replication) of
           None \<Rightarrow> False
         | Some failure_domain \<Rightarrow> canReplicate failure_domain True))"

section \<open>Rebuilding plan\<close>

text \<open>
  Modelled from the spec: \<^verbatim>\<open>RebuildingPlan.h\<close> declares \<^verbatim>\<open>addEpochRange\<close> and the
  interval map \<^verbatim>\<open>epochsToRead\<close>; the definition of \<^verbatim>\<open>addEpochRange\<close> is not part of the
  sources. The plan keeps its half-open epoch intervals \<open>[since, until)\<close> in increasing
  order, each with its metadata. Two intervals overlap iff they share an epoch. Inserting
  an interval that overlaps one already present is a fatal invariant violation: the
  operation aborts. A lookup returns the metadata of the interval that covers the epoch.
\<close>

type_synonym epoch_t = nat

record 'm RebuildingPlan =
  untilLSN :: nat
  epochsToRead :: "((epoch_t \<times> epoch_t) \<times> 'm) list"
  smallestTimestamp :: "nat option"

definition overlaps :: "epoch_t \<times> epoch_t \<Rightarrow> epoch_t \<times> epoch_t \<Rightarrow> bool" where
  "overlaps r r' = (max (fst r) (fst r') < min (snd r) (snd r'))"

definition addEpochRange ::
  "epoch_t \<Rightarrow> epoch_t \<Rightarrow> 'm \<Rightarrow> 'm RebuildingPlan \<Rightarrow> error + 'm RebuildingPlan" where
  "addEpochRange since until metadata plan =
     (if list_ex (\<lambda>(r, m). overlaps (since, until) r) (epochsToRead plan)
      then Inl CHECK_FAILED
      else Inr (plan\<lparr>epochsToRead :=
                  insort_key (\<lambda>(r, m). fst r) ((since, until), metadata) (epochsToRead plan)\<rparr>))"

definition clearEpochRange :: "'m RebuildingPlan \<Rightarrow> 'm RebuildingPlan" where
  "clearEpochRange plan = plan\<lparr>epochsToRead := []\<rparr>"

definition lookup_epoch :: "'m RebuildingPlan \<Rightarrow> epoch_t \<Rightarrow> 'm option" where
  "lookup_epoch plan e =
     map_option snd (find (\<lambda>(r, m). fst r \<le> e \<and> e < snd r) (epochsToRead plan))"

definition empty_plan :: "'m RebuildingPlan" where
  "empty_plan = \<lparr>untilLSN = 0, epochsToRead = [], smallestTimestamp = None\<rparr>"

section \<open>Example cluster\<close>

text \<open>
  Nodes A and B in rack 1 and nodes C and D in rack 2; A and B run sequencers with
  weights 2 and 4, D runs one with weight 0. Node index 2 is not used.
\<close>

definition node_A :: Node where
  "node_A = \<lparr>address = ''10.0.1.1:4440'', generation = 1,
              location = Some [''rg1'', ''dc1'', ''cl1'', ''row1'', ''rack1''],
              isSequencingEnabled = True, getSequencerWeight = 2,
              isWritableStorageNode = True\<rparr>"

definition node_B :: Node where
  "node_B = \<lparr>address = ''10.0.1.2:4440'', generation = 1,
              location = Some [''rg1'', ''dc1'', ''cl1'', ''row1'', ''rack1''],
              isSequencingEnabled = True, getSequencerWeight = 4,
              isWritableStorageNode = True\<rparr>"

definition node_C :: Node where
  "node_C = \<lparr>address = ''10.0.2.1:4440'', generation = 3,
              location = Some [''rg1'', ''dc1'', ''cl1'', ''row1'', ''rack2''],
              isSequencingEnabled = False, getSequencerWeight = 0,
              isWritableStorageNode = True\<rparr>"

definition node_D :: Node where
  "node_D = \<lparr>address = ''10.0.2.2:4440'', generation = 2,
              location = Some [''rg1'', ''dc1'', ''cl1'', ''row1'', ''rack2''],
              isSequencingEnabled = True, getSequencerWeight = 0,
              isWritableStorageNode = False\<rparr>"

definition cluster_ABC :: Nodes where
  "cluster_ABC = [(0, node_A), (1, node_B), (3, node_C)]"

definition no_metadata_logs :: "unit MetaDataLogsConfig" where
  "no_metadata_logs = \<lparr>metadata_nodes = [], metadata_logs_rest = ()\<rparr>"

definition no_zookeeper :: ZookeeperConfig where
  "no_zookeeper = \<lparr>quorum = [], session_timeout = 0\<rparr>"

text \<open>
  One shard on each of the nodes A, B and C, and a shard on node 7, which the example
  cluster does not have.
\<close>

definition shard_A :: ShardID where "shard_A = \<lparr>node_of = 0, shard_of = 0\<rparr>"
definition shard_B :: ShardID where "shard_B = \<lparr>node_of = 1, shard_of = 0\<rparr>"
definition shard_C :: ShardID where "shard_C = \<lparr>node_of = 3, shard_of = 1\<rparr>"
definition shard_Z :: ShardID where "shard_Z = \<lparr>node_of = 7, shard_of = 0\<rparr>"

text \<open>
  A snapshot of the example cluster, as construction followed by the setters leaves it,
  and the sections a loader parses for it.
\<close>

definition snapshot_ABC :: "unit ServerConfig" where
  "snapshot_ABC =
     \<lparr>clusterName = ''test'',
      clusterCreationTime = None,
      nodesConfig = cluster_ABC,
      metaDataLogsConfig = \<lparr>metadata_nodes = [0, 2, 3, 1], metadata_logs_rest = ()\<rparr>,
      principalsConfig = (),
      securityConfig = (),
      trafficShapingConfig = (),
      traceLoggerConfig = (),
      zookeeperConfig = no_zookeeper,
      serverSettingsConfig = (),
      clientSettingsConfig = (),
      internalLogs = (),
      ns_delimiter = ''/'',
      customFields = Map.empty,
      sequencersConfig =
        \<lparr>nodes = [NodeID 0 1, NodeID 1 1, NodeID_default, NodeID_default],
         weights = [1 / 2, 1, 0, 0]\<rparr>,
      addrToIndex = [''10.0.1.1:4440'' \<mapsto> 0, ''10.0.1.2:4440'' \<mapsto> 1, ''10.0.2.1:4440'' \<mapsto> 3],
      version = 5,
      my_node_id = NodeID 0 1,
      server_origin = NodeID 1 1,
      main_config_metadata = Some (),
      included_config_metadata = None\<rparr>"

definition sections_ABC :: "unit ParsedSections" where
  "sections_ABC =
     \<lparr>parsed_clusterName = ''test'',
      parsed_principalsConfig = (),
      parsed_version = 5,
      parsed_clusterCreationTime = None,
      parsed_securityConfig = (),
      parsed_trafficShapingConfig = (),
      parsed_nodesConfig = cluster_ABC,
      parsed_metaDataLogsConfig = no_metadata_logs,
      parsed_zookeeperConfig = no_zookeeper,
      parsed_serverSettingsConfig = (),
      parsed_clientSettingsConfig = (),
      parsed_internalLogs = (),
      parsed_traceLoggerConfig = ()\<rparr>"

section \<open>Node lookup by index and generation\<close>

text \<open>
  C4. Looking up \<open>NodeID index g\<close>: an absent index reports \<open>NOTFOUND\<close>; a present index
  with \<open>g = 0\<close> returns the stored node whatever its generation; a present index with
  \<open>g > 0\<close> returns the stored node when its generation is \<open>g\<close> and reports \<open>NOTFOUND\<close>
  otherwise.
\<close>

theorem getNode_generation_wildcard:
  "getNode ns (NodeID i g) =
     (case map_of ns i of
        None \<Rightarrow> Inl NOTFOUND
      | Some n \<Rightarrow> if g = 0 \<or> generation n = g then Inr n else Inl NOTFOUND)"
  by (simp add: getNode_def getNode_index_def split: option.split)

theorem getNode_generation_wildcard_witness:
  "getNode cluster_ABC (NodeID 3 0) = Inr node_C
   \<and> getNode cluster_ABC (NodeID 3 3) = Inr node_C
   \<and> getNode cluster_ABC (NodeID 3 4) = Inl NOTFOUND
   \<and> getNode cluster_ABC (NodeID 2 0) = Inl NOTFOUND
   \<and> getNode cluster_ABC (NodeID 2 3) = Inl NOTFOUND"
  by (simp add: getNode_generation_wildcard cluster_ABC_def node_C_def)

text \<open>
  A node ID that is not a real node reference is reported as an invalid parameter, before
  any lookup.
\<close>

lemma getNode_invalid: "getNode ns NodeID_default = Inl INVALID_PARAM"
  by (simp add: getNode_def)

section \<open>Construction of the derived indices\<close>

text \<open>
  Facts about the loop of the constructor, for any starting address index and sequencers
  config, and about the scaling of the weights.
\<close>

lemma getMaxNodeIdx_fold_ge:
  "(r::nat) \<le> fold (\<lambda>(i, n) r. max r i) (ns::Nodes) r"
proof (induction ns arbitrary: r)
  case Nil
  then show ?case by simp
next
  case (Cons x xs)
  obtain i n where x: "x = (i, n)" by (cases x)
  have "r \<le> max r i" by simp
  also have "\<dots> \<le> fold (\<lambda>(i, n) r. max r i) xs (max r i)" by (rule Cons.IH)
  finally show ?case by (simp add: x)
qed

lemma getMaxNodeIdx_fold_mem:
  "(i, n) \<in> set (ns::Nodes) \<Longrightarrow> i \<le> fold (\<lambda>(i, n) r. max r i) ns (r::nat)"
proof (induction ns arbitrary: r)
  case Nil
  then show ?case by simp
next
  case (Cons x xs)
  show ?case
  proof (cases "(i, n) = x")
    case True
    have "i \<le> max r i" by simp
    also have "\<dots> \<le> fold (\<lambda>(i, n) r. max r i) xs (max r i)"
      by (rule getMaxNodeIdx_fold_ge)
    finally show ?thesis using True by auto
  next
    case False
    with Cons.prems have "(i, n) \<in> set xs" by auto
    from Cons.IH[OF this] show ?thesis by (cases x) simp
  qed
qed

lemma getMaxNodeIdx_ge: "(i, n) \<in> set ns \<Longrightarrow> i \<le> getMaxNodeIdx ns"
  unfolding getMaxNodeIdx_def by (rule getMaxNodeIdx_fold_mem)

lemma index_nodes_Cons:
  "index_nodes ((i, node) # rest) m sc =
     (if m (address node) = None
      then index_nodes rest (m(address node \<mapsto> i)) (set_sequencer i node sc)
      else Inl CHECK_FAILED)"
  by (simp add: insert_addr_def split: option.split)

lemma index_nodes_error: "index_nodes ns m sc = Inl e \<Longrightarrow> e = CHECK_FAILED"
proof (induction ns arbitrary: m sc)
  case Nil
  then show ?case by simp
next
  case (Cons x xs)
  obtain i n where x: "x = (i, n)" by (cases x)
  from Cons.prems Cons.IH show ?case
    by (simp add: x index_nodes_Cons del: index_nodes.simps split: if_splits)
qed

lemma index_nodes_keeps:
  "index_nodes ns m sc = Inr (m', sc') \<Longrightarrow> m a = Some j \<Longrightarrow> m' a = Some j"
proof (induction ns arbitrary: m sc)
  case Nil
  then show ?case by simp
next
  case (Cons x xs)
  obtain i n where x: "x = (i, n)" by (cases x)
  from Cons.prems have fresh: "m (address n) = None"
    and rest: "index_nodes xs (m(address n \<mapsto> i)) (set_sequencer i n sc) = Inr (m', sc')"
    by (simp_all add: x index_nodes_Cons del: index_nodes.simps split: if_splits)
  from fresh Cons.prems(2) have "(m(address n \<mapsto> i)) a = Some j" by auto
  from Cons.IH[OF rest this] show ?case .
qed

lemma index_nodes_fresh:
  "index_nodes ns m sc = Inr (m', sc') \<Longrightarrow> (i, n) \<in> set ns \<Longrightarrow> m (address n) = None"
proof (induction ns arbitrary: m sc)
  case Nil
  then show ?case by simp
next
  case (Cons x xs)
  obtain j node where x: "x = (j, node)" by (cases x)
  from Cons.prems have fresh: "m (address node) = None"
    and rest: "index_nodes xs (m(address node \<mapsto> j)) (set_sequencer j node sc) = Inr (m', sc')"
    by (simp_all add: x index_nodes_Cons del: index_nodes.simps split: if_splits)
  show ?case
  proof (cases "(i, n) = (j, node)")
    case True
    then show ?thesis using fresh by simp
  next
    case False
    with Cons.prems(2) x have "(i, n) \<in> set xs" by auto
    from Cons.IH[OF rest this] show ?thesis by (simp split: if_splits)
  qed
qed

lemma index_nodes_distinct:
  "index_nodes ns m sc = Inr (m', sc') \<Longrightarrow> distinct (map (\<lambda>p. address (snd p)) ns)"
proof (induction ns arbitrary: m sc)
  case Nil
  then show ?case by simp
next
  case (Cons x xs)
  obtain j node where x: "x = (j, node)" by (cases x)
  from Cons.prems have fresh: "m (address node) = None"
    and rest: "index_nodes xs (m(address node \<mapsto> j)) (set_sequencer j node sc) = Inr (m', sc')"
    by (simp_all add: x index_nodes_Cons del: index_nodes.simps split: if_splits)
  have "address node \<notin> set (map (\<lambda>p. address (snd p)) xs)"
  proof
    assume "address node \<in> set (map (\<lambda>p. address (snd p)) xs)"
    then obtain k n where "(k, n) \<in> set xs" "address n = address node" by auto
    with index_nodes_fresh[OF rest] show False by fastforce
  qed
  with Cons.IH[OF rest] show ?case by (simp add: x)
qed

lemma index_nodes_succeeds:
  "distinct (map (\<lambda>p. address (snd p)) ns) \<Longrightarrow> \<forall>(i, n) \<in> set ns. m (address n) = None
     \<Longrightarrow> \<exists>r. index_nodes ns m sc = Inr r"
proof (induction ns arbitrary: m sc)
  case Nil
  then show ?case by simp
next
  case (Cons x xs)
  obtain j node where x: "x = (j, node)" by (cases x)
  have fresh: "m (address node) = None" using Cons.prems(2) x by auto
  have d: "distinct (map (\<lambda>p. address (snd p)) xs)" using Cons.prems(1) by simp
  have f: "\<forall>(k, n) \<in> set xs. (m(address node \<mapsto> j)) (address n) = None"
  proof (clarify)
    fix k n assume mem: "(k, n) \<in> set xs"
    with Cons.prems(2) have "m (address n) = None" by auto
    moreover from mem Cons.prems(1) x have "address n \<noteq> address node" by force
    ultimately show "(m(address node \<mapsto> j)) (address n) = None" by simp
  qed
  from Cons.IH[OF d f, of "set_sequencer j node sc"] obtain r where
    r: "index_nodes xs (m(address node \<mapsto> j)) (set_sequencer j node sc) = Inr r" by blast
  have "index_nodes (x # xs) m sc =
          index_nodes xs (m(address node \<mapsto> j)) (set_sequencer j node sc)"
    unfolding x index_nodes_Cons using fresh by simp
  with r show ?case by (intro exI[of _ r]) (simp only:)
qed

lemma index_nodes_maps:
  "index_nodes ns m sc = Inr (m', sc') \<Longrightarrow> (i, n) \<in> set ns \<Longrightarrow> m' (address n) = Some i"
proof (induction ns arbitrary: m sc)
  case Nil
  then show ?case by simp
next
  case (Cons x xs)
  obtain j node where x: "x = (j, node)" by (cases x)
  from Cons.prems have fresh: "m (address node) = None"
    and rest: "index_nodes xs (m(address node \<mapsto> j)) (set_sequencer j node sc) = Inr (m', sc')"
    by (simp_all add: x index_nodes_Cons del: index_nodes.simps split: if_splits)
  show ?case
  proof (cases "(i, n) = (j, node)")
    case True
    then show ?thesis using index_nodes_keeps[OF rest, of "address node" j] by simp
  next
    case False
    with Cons.prems(2) x have "(i, n) \<in> set xs" by auto
    from Cons.IH[OF rest this] show ?thesis .
  qed
qed

lemma index_nodes_other:
  "index_nodes ns m sc = Inr (m', sc') \<Longrightarrow> a \<notin> (\<lambda>p. address (snd p)) ` set ns \<Longrightarrow> m' a = m a"
proof (induction ns arbitrary: m sc)
  case Nil
  then show ?case by simp
next
  case (Cons x xs)
  obtain j node where x: "x = (j, node)" by (cases x)
  from Cons.prems have fresh: "m (address node) = None"
    and rest: "index_nodes xs (m(address node \<mapsto> j)) (set_sequencer j node sc) = Inr (m', sc')"
    by (simp_all add: x index_nodes_Cons del: index_nodes.simps split: if_splits)
  from Cons.prems(2) x have "a \<notin> (\<lambda>p. address (snd p)) ` set xs" "a \<noteq> address node" by auto
  with Cons.IH[OF rest] show ?case by simp
qed

lemma set_sequencer_length [simp]:
  "length (nodes (set_sequencer i n sc)) = length (nodes sc)"
  "length (weights (set_sequencer i n sc)) = length (weights sc)"
  by (simp_all add: set_sequencer_def)

lemma index_nodes_length:
  "index_nodes ns m sc = Inr (m', sc') \<Longrightarrow>
     length (nodes sc') = length (nodes sc) \<and> length (weights sc') = length (weights sc)"
proof (induction ns arbitrary: m sc)
  case Nil
  then show ?case by simp
next
  case (Cons x xs)
  obtain j node where x: "x = (j, node)" by (cases x)
  from Cons.prems have
    rest: "index_nodes xs (m(address node \<mapsto> j)) (set_sequencer j node sc) = Inr (m', sc')"
    by (simp_all add: x index_nodes_Cons del: index_nodes.simps split: if_splits)
  from Cons.IH[OF rest] show ?case by simp
qed

lemma index_nodes_nodes_at:
  "index_nodes ns m sc = Inr (m', sc') \<Longrightarrow> distinct (map fst ns) \<Longrightarrow> k < length (nodes sc) \<Longrightarrow>
     nodes sc' ! k =
       (case map_of ns k of
          None \<Rightarrow> nodes sc ! k
        | Some n \<Rightarrow> if isSequencingEnabled n then NodeID k (generation n) else nodes sc ! k)"
proof (induction ns arbitrary: m sc)
  case Nil
  then show ?case by simp
next
  case (Cons x xs)
  obtain j node where x: "x = (j, node)" by (cases x)
  from Cons.prems(1) have
    rest: "index_nodes xs (m(address node \<mapsto> j)) (set_sequencer j node sc) = Inr (m', sc')"
    by (simp_all add: x index_nodes_Cons del: index_nodes.simps split: if_splits)
  from Cons.prems(2) have d: "distinct (map fst xs)" and nj: "j \<notin> fst ` set xs"
    by (simp_all add: x)
  have len: "k < length (nodes (set_sequencer j node sc))" using Cons.prems(3) by simp
  note IH = Cons.IH[OF rest d len]
  show ?case
  proof (cases "k = j")
    case True
    from nj have "map_of xs j = None" by (simp add: map_of_eq_None_iff)
    with IH True Cons.prems(3) show ?thesis
      by (simp add: x set_sequencer_def)
  next
    case False
    then have "nodes (set_sequencer j node sc) ! k = nodes sc ! k"
      by (simp add: set_sequencer_def)
    with IH False show ?thesis by (simp add: x split: option.split)
  qed
qed

lemma index_nodes_weights_at:
  "index_nodes ns m sc = Inr (m', sc') \<Longrightarrow> distinct (map fst ns) \<Longrightarrow> k < length (weights sc) \<Longrightarrow>
     weights sc' ! k =
       (case map_of ns k of
          None \<Rightarrow> weights sc ! k
        | Some n \<Rightarrow> if isSequencingEnabled n then getSequencerWeight n else weights sc ! k)"
proof (induction ns arbitrary: m sc)
  case Nil
  then show ?case by simp
next
  case (Cons x xs)
  obtain j node where x: "x = (j, node)" by (cases x)
  from Cons.prems(1) have
    rest: "index_nodes xs (m(address node \<mapsto> j)) (set_sequencer j node sc) = Inr (m', sc')"
    by (simp_all add: x index_nodes_Cons del: index_nodes.simps split: if_splits)
  from Cons.prems(2) have d: "distinct (map fst xs)" and nj: "j \<notin> fst ` set xs"
    by (simp_all add: x)
  have len: "k < length (weights (set_sequencer j node sc))" using Cons.prems(3) by simp
  note IH = Cons.IH[OF rest d len]
  show ?case
  proof (cases "k = j")
    case True
    from nj have "map_of xs j = None" by (simp add: map_of_eq_None_iff)
    with IH True Cons.prems(3) show ?thesis
      by (simp add: x set_sequencer_def)
  next
    case False
    then have "weights (set_sequencer j node sc) ! k = weights sc ! k"
      by (simp add: set_sequencer_def)
    with IH False show ?thesis by (simp add: x split: option.split)
  qed
qed

lemma max_element_from_Max: "max_element_from l ws = Max (insert l (set ws))"
proof (induction ws arbitrary: l)
  case Nil
  then show ?case by simp
next
  case (Cons w ws)
  have "Max (insert l (set (w # ws))) = max l (Max (insert w (set ws)))"
    by simp
  also have "\<dots> = Max (insert (max l w) (set ws))"
    by (cases "set ws = {}") (simp_all add: max.assoc)
  finally show ?case using Cons.IH[of "if l < w then w else l"]
    by (simp add: max_def not_less split: if_splits)
qed

lemma max_element_Max: "ws \<noteq> [] \<Longrightarrow> max_element ws = Some (Max (set ws))"
  by (cases ws) (simp_all add: max_element_def max_element_from_Max)

lemma scale_weights_eq:
  "ws \<noteq> [] \<Longrightarrow> scale_weights ws =
     (if 0 < Max (set ws) then map (\<lambda>w. w / Max (set ws)) ws else ws)"
  by (simp add: scale_weights_def max_element_Max)

lemma derive_indices_error:
  "derive_indices ns = Inl e \<Longrightarrow> e = CHECK_FAILED"
  by (auto simp: derive_indices_def Let_def split: sum.splits dest: index_nodes_error)

lemma derive_indices_succeeds_iff:
  "(\<exists>r. derive_indices ns = Inr r) = distinct (map (\<lambda>p. address (snd p)) ns)"
proof
  assume "\<exists>r. derive_indices ns = Inr r"
  then obtain m sc where
    "index_nodes ns Map.empty
       \<lparr>nodes = replicate (getMaxNodeIdx ns + 1) NodeID_default,
        weights = replicate (getMaxNodeIdx ns + 1) 0\<rparr> = Inr (m, sc)"
    by (auto simp: derive_indices_def Let_def split: sum.splits)
  then show "distinct (map (\<lambda>p. address (snd p)) ns)" by (rule index_nodes_distinct)
next
  assume "distinct (map (\<lambda>p. address (snd p)) ns)"
  then have "\<exists>r. index_nodes ns Map.empty
       \<lparr>nodes = replicate (getMaxNodeIdx ns + 1) NodeID_default,
        weights = replicate (getMaxNodeIdx ns + 1) 0\<rparr> = Inr r"
    by (rule index_nodes_succeeds) simp
  then show "\<exists>r. derive_indices ns = Inr r"
    by (auto simp: derive_indices_def Let_def)
qed

lemma derive_indices_unfold:
  "derive_indices ns = Inr (m, sq) \<Longrightarrow>
     \<exists>sc. index_nodes ns Map.empty
            \<lparr>nodes = replicate (getMaxNodeIdx ns + 1) NodeID_default,
             weights = replicate (getMaxNodeIdx ns + 1) 0\<rparr> = Inr (m, sc)
        \<and> nodes sq = nodes sc \<and> weights sq = scale_weights (weights sc)"
  by (auto simp: derive_indices_def Let_def split: sum.splits)

lemma derive_indices_addr:
  assumes "derive_indices ns = Inr (m, sq)"
  shows "(i, n) \<in> set ns \<Longrightarrow> m (address n) = Some i"
    and "a \<notin> (\<lambda>p. address (snd p)) ` set ns \<Longrightarrow> m a = None"
proof -
  from derive_indices_unfold[OF assms] obtain sc where
    run: "index_nodes ns Map.empty
            \<lparr>nodes = replicate (getMaxNodeIdx ns + 1) NodeID_default,
             weights = replicate (getMaxNodeIdx ns + 1) 0\<rparr> = Inr (m, sc)"
    by blast
  show "(i, n) \<in> set ns \<Longrightarrow> m (address n) = Some i"
    using index_nodes_maps[OF run] .
  show "a \<notin> (\<lambda>p. address (snd p)) ` set ns \<Longrightarrow> m a = None"
    using index_nodes_other[OF run, of a] by simp
qed

lemma fromData_of_Inl:
  "derive_indices ns = Inl e \<Longrightarrow> fromData cn ns md pc sec trc tsc zk sset cset il ct cf nd = Inl e"
  by (simp add: fromData_def ServerConfig_ctor_def)

lemma fromData_of_Inr:
  "derive_indices ns = Inr (m, sq) \<Longrightarrow>
     \<exists>c. fromData cn ns md pc sec trc tsc zk sset cset il ct cf nd = Inr c
       \<and> addrToIndex c = m \<and> sequencersConfig c = sq \<and> nodesConfig c = ns"
  by (simp add: fromData_def ServerConfig_ctor_def)

lemma fromData_Inr:
  assumes "fromData cn ns md pc sec trc tsc zk sset cset il ct cf nd = Inr c"
  shows "derive_indices ns = Inr (addrToIndex c, sequencersConfig c) \<and> nodesConfig c = ns"
proof (cases "derive_indices ns")
  case (Inl e)
  from fromData_of_Inl[OF Inl, of cn md pc sec trc tsc zk sset cset il ct cf nd] assms
  show ?thesis by simp
next
  case (Inr r)
  obtain m sq where r: "r = (m, sq)" by (cases r)
  from fromData_of_Inr[OF Inr[unfolded r], of cn md pc sec trc tsc zk sset cset il ct cf nd] assms
  show ?thesis by (auto simp: Inr r)
qed

lemma fromData_Inl:
  assumes "fromData cn ns md pc sec trc tsc zk sset cset il ct cf nd = Inl e"
  shows "derive_indices ns = Inl e"
proof (cases "derive_indices ns")
  case (Inl e')
  from fromData_of_Inl[OF Inl, of cn md pc sec trc tsc zk sset cset il ct cf nd] assms
  show ?thesis by (simp add: Inl)
next
  case (Inr r)
  obtain m sq where r: "r = (m, sq)" by (cases r)
  from fromData_of_Inr[OF Inr[unfolded r], of cn md pc sec trc tsc zk sset cset il ct cf nd] assms
  show ?thesis by auto
qed

lemma fromData_total:
  "(\<exists>c. fromData cn ns md pc sec trc tsc zk sset cset il ct cf nd = Inr c)
     = distinct (map (\<lambda>p. address (snd p)) ns)"
proof
  assume "\<exists>c. fromData cn ns md pc sec trc tsc zk sset cset il ct cf nd = Inr c"
  then obtain c where "fromData cn ns md pc sec trc tsc zk sset cset il ct cf nd = Inr c" ..
  from fromData_Inr[OF this] have "\<exists>r. derive_indices ns = Inr r" by blast
  then show "distinct (map (\<lambda>p. address (snd p)) ns)"
    by (simp only: derive_indices_succeeds_iff)
next
  assume "distinct (map (\<lambda>p. address (snd p)) ns)"
  then have "\<exists>r. derive_indices ns = Inr r"
    by (simp only: derive_indices_succeeds_iff)
  then obtain m sq where "derive_indices ns = Inr (m, sq)" by fastforce
  from fromData_of_Inr[OF this, of cn md pc sec trc tsc zk sset cset il ct cf nd]
  show "\<exists>c. fromData cn ns md pc sec trc tsc zk sset cset il ct cf nd = Inr c" by blast
qed

lemma fromData_fails:
  "\<not> distinct (map (\<lambda>p. address (snd p)) ns) \<Longrightarrow>
     fromData cn ns md pc sec trc tsc zk sset cset il ct cf nd = Inl CHECK_FAILED"
proof -
  assume nd: "\<not> distinct (map (\<lambda>p. address (snd p)) ns)"
  show ?thesis
  proof (cases "fromData cn ns md pc sec trc tsc zk sset cset il ct cf nd")
    case (Inl e)
    from derive_indices_error[OF fromData_Inl[OF Inl]] Inl show ?thesis by simp
  next
    case (Inr c)
    then have "\<exists>c. fromData cn ns md pc sec trc tsc zk sset cset il ct cf nd = Inr c" by blast
    with nd show ?thesis by (simp add: fromData_total)
  qed
qed

lemma shared_address_iff:
  assumes "distinct (map fst ns)"
  shows "(\<not> distinct (map (\<lambda>p. address (snd p)) ns))
     = (\<exists>i j n n'. i \<noteq> j \<and> (i, n) \<in> set ns \<and> (j, n') \<in> set ns \<and> address n = address n')"
proof -
  from assms have d: "distinct ns" and inj: "inj_on fst (set ns)"
    by (simp_all add: distinct_map)
  have "(\<not> distinct (map (\<lambda>p. address (snd p)) ns)) = (\<not> inj_on (\<lambda>p. address (snd p)) (set ns))"
    using d by (simp add: distinct_map)
  also have "\<dots> = (\<exists>p \<in> set ns. \<exists>q \<in> set ns. p \<noteq> q \<and> address (snd p) = address (snd q))"
    unfolding inj_on_def by blast
  also have "\<dots> = (\<exists>i j n n'. i \<noteq> j \<and> (i, n) \<in> set ns \<and> (j, n') \<in> set ns \<and> address n = address n')"
  proof
    assume "\<exists>p \<in> set ns. \<exists>q \<in> set ns. p \<noteq> q \<and> address (snd p) = address (snd q)"
    then obtain p q where pq: "p \<in> set ns" "q \<in> set ns" "p \<noteq> q" "address (snd p) = address (snd q)"
      by blast
    with inj have "fst p \<noteq> fst q" by (auto simp: inj_on_def)
    with pq show "\<exists>i j n n'. i \<noteq> j \<and> (i, n) \<in> set ns \<and> (j, n') \<in> set ns \<and> address n = address n'"
      by (intro exI[of _ "fst p"] exI[of _ "fst q"] exI[of _ "snd p"] exI[of _ "snd q"]) simp
  next
    assume "\<exists>i j n n'. i \<noteq> j \<and> (i, n) \<in> set ns \<and> (j, n') \<in> set ns \<and> address n = address n'"
    then obtain i j n n' where
      h: "i \<noteq> j" "(i, n) \<in> set ns" "(j, n') \<in> set ns" "address n = address n'" by blast
    then show "\<exists>p \<in> set ns. \<exists>q \<in> set ns. p \<noteq> q \<and> address (snd p) = address (snd q)"
      by (intro bexI[of _ "(i, n)"] bexI[of _ "(j, n')"]) simp_all
  qed
  finally show ?thesis .
qed

lemma getNodeID_stored:
  assumes c: "fromData cn ns md pc sec trc tsc zk sset cset il ct cf nd = Inr c"
    and d: "distinct (map fst ns)" and mem: "(i, n) \<in> set ns"
  shows "getNodeID c (address n) = Inr (NodeID i (generation n))"
proof -
  from fromData_Inr[OF c] have
    der: "derive_indices ns = Inr (addrToIndex c, sequencersConfig c)" and ns: "nodesConfig c = ns"
    by simp_all
  from derive_indices_addr(1)[OF der mem] have "addrToIndex c (address n) = Some i" .
  moreover from d mem have "map_of ns i = Some n" by simp
  ultimately show ?thesis by (simp add: getNodeID_def ns)
qed

lemma getNodeID_unknown:
  assumes c: "fromData cn ns md pc sec trc tsc zk sset cset il ct cf nd = Inr c"
    and a: "a \<notin> (\<lambda>p. address (snd p)) ` set ns"
  shows "getNodeID c a = Inl NOTFOUND"
proof -
  from fromData_Inr[OF c] have
    der: "derive_indices ns = Inr (addrToIndex c, sequencersConfig c)" by simp
  from derive_indices_addr(2)[OF der a] show ?thesis by (simp add: getNodeID_def)
qed


lemma raw_sequencers:
  assumes run: "index_nodes ns Map.empty
            \<lparr>nodes = replicate (getMaxNodeIdx ns + 1) NodeID_default,
             weights = replicate (getMaxNodeIdx ns + 1) 0\<rparr> = Inr (m, sc)"
    and d: "distinct (map fst ns)"
  shows "length (nodes sc) = getMaxNodeIdx ns + 1"
    and "length (weights sc) = getMaxNodeIdx ns + 1"
    and "k \<le> getMaxNodeIdx ns \<Longrightarrow> nodes sc ! k =
           (case map_of ns k of
              None \<Rightarrow> NodeID_default
            | Some n \<Rightarrow> if isSequencingEnabled n then NodeID k (generation n) else NodeID_default)"
    and "k \<le> getMaxNodeIdx ns \<Longrightarrow> weights sc ! k =
           (case map_of ns k of
              None \<Rightarrow> 0
            | Some n \<Rightarrow> if isSequencingEnabled n then getSequencerWeight n else 0)"
proof -
  let ?sc0 = "\<lparr>nodes = replicate (getMaxNodeIdx ns + 1) NodeID_default,
             weights = replicate (getMaxNodeIdx ns + 1) (0::real)\<rparr>"
  from index_nodes_length[OF run]
  show "length (nodes sc) = getMaxNodeIdx ns + 1" "length (weights sc) = getMaxNodeIdx ns + 1"
    by simp_all
  show "nodes sc ! k =
           (case map_of ns k of
              None \<Rightarrow> NodeID_default
            | Some n \<Rightarrow> if isSequencingEnabled n then NodeID k (generation n) else NodeID_default)"
    if "k \<le> getMaxNodeIdx ns"
  proof -
    from that have lt: "k < length (nodes ?sc0)" by simp
    from that have "replicate (getMaxNodeIdx ns + 1) NodeID_default ! k = NodeID_default"
      by (intro nth_replicate) simp
    then have init: "nodes ?sc0 ! k = NodeID_default" by (simp only: SequencersConfig.simps)
    from index_nodes_nodes_at[OF run d lt] show ?thesis
      by (simp only: init)
  qed
  show "weights sc ! k =
           (case map_of ns k of
              None \<Rightarrow> 0
            | Some n \<Rightarrow> if isSequencingEnabled n then getSequencerWeight n else 0)"
    if "k \<le> getMaxNodeIdx ns"
  proof -
    from that have lt: "k < length (weights ?sc0)" by simp
    from that have "replicate (getMaxNodeIdx ns + 1) (0::real) ! k = 0"
      by (intro nth_replicate) simp
    then have init: "weights ?sc0 ! k = 0" by (simp only: SequencersConfig.simps)
    from index_nodes_weights_at[OF run d lt] show ?thesis
      by (simp only: init)
  qed
qed

lemma raw_weights_members:
  assumes run: "index_nodes ns Map.empty
            \<lparr>nodes = replicate (getMaxNodeIdx ns + 1) NodeID_default,
             weights = replicate (getMaxNodeIdx ns + 1) 0\<rparr> = Inr (m, sc)"
    and d: "distinct (map fst ns)"
  shows "y \<in> set (weights sc) \<Longrightarrow>
           y = 0 \<or> (\<exists>i n. (i, n) \<in> set ns \<and> isSequencingEnabled n \<and> y = getSequencerWeight n)"
    and "(i, n) \<in> set ns \<Longrightarrow> isSequencingEnabled n \<Longrightarrow> weights sc ! i = getSequencerWeight n"
    and "(i, n) \<in> set ns \<Longrightarrow> isSequencingEnabled n \<Longrightarrow> getSequencerWeight n \<in> set (weights sc)"
proof -
  note raw = raw_sequencers[OF run d]
  show "y = 0 \<or> (\<exists>i n. (i, n) \<in> set ns \<and> isSequencingEnabled n \<and> y = getSequencerWeight n)"
    if "y \<in> set (weights sc)"
  proof -
    from that obtain k where k: "k < length (weights sc)" "y = weights sc ! k"
      by (auto simp: in_set_conv_nth)
    with raw(2) have kle: "k \<le> getMaxNodeIdx ns" by simp
    show ?thesis
    proof (cases "map_of ns k")
      case None
      with raw(4)[OF kle] k show ?thesis by simp
    next
      case (Some n)
      then have "(k, n) \<in> set ns" by (rule map_of_SomeD)
      with raw(4)[OF kle] k Some show ?thesis by (cases "isSequencingEnabled n") auto
    qed
  qed
  show at: "weights sc ! i = getSequencerWeight n"
    if "(i, n) \<in> set ns" "isSequencingEnabled n" for i n
  proof -
    from that(1) have "i \<le> getMaxNodeIdx ns" by (rule getMaxNodeIdx_ge)
    moreover from d that(1) have "map_of ns i = Some n" by simp
    ultimately show ?thesis using raw(4)[of i] that(2) by simp
  qed
  show "getSequencerWeight n \<in> set (weights sc)"
    if "(i, n) \<in> set ns" "isSequencingEnabled n"
  proof -
    from that(1) have "i < length (weights sc)"
      using getMaxNodeIdx_ge[OF that(1)] raw(2) by simp
    then have "weights sc ! i \<in> set (weights sc)" by (rule nth_mem)
    with at[OF that] show ?thesis by simp
  qed
qed

lemma raw_weights_Max:
  assumes run: "index_nodes ns Map.empty
            \<lparr>nodes = replicate (getMaxNodeIdx ns + 1) NodeID_default,
             weights = replicate (getMaxNodeIdx ns + 1) 0\<rparr> = Inr (m, sc)"
    and d: "distinct (map fst ns)"
  shows "(\<exists>(i, n) \<in> set ns. isSequencingEnabled n \<and> 0 < getSequencerWeight n) \<Longrightarrow>
           Max (set (weights sc))
             = Max {getSequencerWeight n | i n. (i, n) \<in> set ns \<and> isSequencingEnabled n}
           \<and> 0 < Max (set (weights sc))"
    and "\<not> (\<exists>(i, n) \<in> set ns. isSequencingEnabled n \<and> 0 < getSequencerWeight n) \<Longrightarrow>
           \<not> 0 < Max (set (weights sc))"
proof -
  note mem = raw_weights_members[OF run d]
  have ne: "weights sc \<noteq> []" using raw_sequencers(2)[OF run d] by auto
  let ?S = "{getSequencerWeight n | i n. (i, n) \<in> set ns \<and> isSequencingEnabled n}"
  have S_img: "?S = (\<lambda>p. getSequencerWeight (snd p)) ` {p \<in> set ns. isSequencingEnabled (snd p)}"
    by force
  have fin: "finite ?S" unfolding S_img by simp
  show "Max (set (weights sc)) = Max ?S \<and> 0 < Max (set (weights sc))"
    if P: "\<exists>(i, n) \<in> set ns. isSequencingEnabled n \<and> 0 < getSequencerWeight n"
  proof -
    from P obtain i n where in0: "(i, n) \<in> set ns" "isSequencingEnabled n" "0 < getSequencerWeight n"
      by blast
    then have nin: "getSequencerWeight n \<in> ?S" by blast
    then have "?S \<noteq> {}" by blast
    with fin have "Max ?S \<in> ?S" by (rule Max_in)
    then obtain j n' where jn: "(j, n') \<in> set ns" "isSequencingEnabled n'"
      "Max ?S = getSequencerWeight n'" by blast
    from fin nin have "getSequencerWeight n \<le> Max ?S" by (rule Max_ge)
    with in0(3) have pos: "0 < Max ?S" by simp
    have "Max (set (weights sc)) = Max ?S"
    proof (rule Max_eqI)
      show "finite (set (weights sc))" by simp
      show "Max ?S \<in> set (weights sc)" using mem(3)[OF jn(1,2)] jn(3) by simp
      fix y assume "y \<in> set (weights sc)"
      from mem(1)[OF this] show "y \<le> Max ?S"
      proof
        assume "y = 0" with pos show ?thesis by simp
      next
        assume "\<exists>i n. (i, n) \<in> set ns \<and> isSequencingEnabled n \<and> y = getSequencerWeight n"
        then have "y \<in> ?S" by blast
        with fin show ?thesis by (rule Max_ge)
      qed
    qed
    with pos show ?thesis by simp
  qed
  show "\<not> 0 < Max (set (weights sc))"
    if nP: "\<not> (\<exists>(i, n) \<in> set ns. isSequencingEnabled n \<and> 0 < getSequencerWeight n)"
  proof -
    have "\<forall>y \<in> set (weights sc). y \<le> 0"
    proof
      fix y assume "y \<in> set (weights sc)"
      from mem(1)[OF this] nP show "y \<le> 0" by (auto simp: not_less)
    qed
    with ne have "Max (set (weights sc)) \<le> 0" by simp
    then show ?thesis by simp
  qed
qed

lemma derive_indices_weights:
  assumes der: "derive_indices ns = Inr (m, sq)" and d: "distinct (map fst ns)"
  shows "\<exists>sc. index_nodes ns Map.empty
            \<lparr>nodes = replicate (getMaxNodeIdx ns + 1) NodeID_default,
             weights = replicate (getMaxNodeIdx ns + 1) 0\<rparr> = Inr (m, sc)
          \<and> nodes sq = nodes sc
          \<and> weights sq =
              (if \<exists>(i, n) \<in> set ns. isSequencingEnabled n \<and> 0 < getSequencerWeight n
               then map (\<lambda>w. w / Max {getSequencerWeight n | i n. (i, n) \<in> set ns \<and> isSequencingEnabled n})
                      (weights sc)
               else weights sc)"
proof -
  from derive_indices_unfold[OF der] obtain sc where
    run: "index_nodes ns Map.empty
            \<lparr>nodes = replicate (getMaxNodeIdx ns + 1) NodeID_default,
             weights = replicate (getMaxNodeIdx ns + 1) 0\<rparr> = Inr (m, sc)"
    and n: "nodes sq = nodes sc" and w: "weights sq = scale_weights (weights sc)"
    by blast
  have ne: "weights sc \<noteq> []" using raw_sequencers(2)[OF run d] by auto
  note sw = scale_weights_eq[OF ne]
  show ?thesis
  proof (cases "\<exists>(i, n) \<in> set ns. isSequencingEnabled n \<and> 0 < getSequencerWeight n")
    case True
    from raw_weights_Max(1)[OF run d True] sw w n run True show ?thesis
      by (intro exI[of _ sc]) simp
  next
    case False
    from raw_weights_Max(2)[OF run d False] sw w n run False show ?thesis
      by (intro exI[of _ sc]) simp
  qed
qed

lemma sequencers_length:
  assumes c: "fromData cn ns md pc sec trc tsc zk sset cset il ct cf nd = Inr c"
    and d: "distinct (map fst ns)"
  shows "length (nodes (sequencersConfig c)) = getMaxNodeIdx ns + 1"
    and "length (weights (sequencersConfig c)) = getMaxNodeIdx ns + 1"
proof -
  from fromData_Inr[OF c] have
    der: "derive_indices ns = Inr (addrToIndex c, sequencersConfig c)" by simp
  from derive_indices_weights[OF der d] obtain sc where
    run: "index_nodes ns Map.empty
            \<lparr>nodes = replicate (getMaxNodeIdx ns + 1) NodeID_default,
             weights = replicate (getMaxNodeIdx ns + 1) 0\<rparr> = Inr (addrToIndex c, sc)"
    and n: "nodes (sequencersConfig c) = nodes sc"
    and w: "weights (sequencersConfig c) =
        (if \<exists>(i, n) \<in> set ns. isSequencingEnabled n \<and> 0 < getSequencerWeight n
         then map (\<lambda>w. w / Max {getSequencerWeight n | i n. (i, n) \<in> set ns \<and> isSequencingEnabled n})
                (weights sc)
         else weights sc)"
    by blast
  note raw = raw_sequencers[OF run d]
  show "length (nodes (sequencersConfig c)) = getMaxNodeIdx ns + 1" using raw(1) n by simp
  show "length (weights (sequencersConfig c)) = getMaxNodeIdx ns + 1" using raw(2) w by simp
qed

lemmas example_defs = node_A_def node_B_def node_C_def node_D_def cluster_ABC_def

section \<open>Addresses and node indices\<close>

text \<open>
  C5. For a nodes map (distinct keys): when two nodes share an address, the construction
  aborts on the failed check; otherwise it yields a snapshot in which \<open>getNodeID\<close> of
  every node's stored address succeeds with the node ID built from that node's index and
  stored generation, and \<open>getNodeID\<close> of an address that belongs to no node reports
  \<open>NOTFOUND\<close>.
\<close>

theorem address_index_bijection:
  assumes "distinct (map fst ns)"
  shows "if \<exists>i j n n'. i \<noteq> j \<and> (i, n) \<in> set ns \<and> (j, n') \<in> set ns \<and> address n = address n'
         then fromData cn ns md pc sec trc tsc zk sset cset il ct cf nd = Inl CHECK_FAILED
         else \<exists>c. fromData cn ns md pc sec trc tsc zk sset cset il ct cf nd = Inr c
                \<and> (\<forall>(i, n) \<in> set ns. getNodeID c (address n) = Inr (NodeID i (generation n)))
                \<and> (\<forall>a. a \<notin> (\<lambda>p. address (snd p)) ` set ns \<longrightarrow> getNodeID c a = Inl NOTFOUND)"
proof (cases "distinct (map (\<lambda>p. address (snd p)) ns)")
  case False
  with shared_address_iff[OF assms] fromData_fails[OF False] show ?thesis by simp
next
  case True
  then obtain c where c: "fromData cn ns md pc sec trc tsc zk sset cset il ct cf nd = Inr c"
    using fromData_total[of cn ns md pc sec trc tsc zk sset cset il ct cf nd] by blast
  have "\<forall>(i, n) \<in> set ns. getNodeID c (address n) = Inr (NodeID i (generation n))"
    using getNodeID_stored[OF c assms] by blast
  moreover have "\<forall>a. a \<notin> (\<lambda>p. address (snd p)) ` set ns \<longrightarrow> getNodeID c a = Inl NOTFOUND"
    using getNodeID_unknown[OF c] by blast
  ultimately show ?thesis using True shared_address_iff[OF assms] c by simp
qed

theorem address_index_bijection_witness:
  "fromData ''test'' [(0, node_A), (1, node_B), (3, node_A)] no_metadata_logs () () () ()
      no_zookeeper () () () None Map.empty ''/'' = Inl CHECK_FAILED
   \<and> (\<exists>c. fromData ''test'' cluster_ABC no_metadata_logs () () () () no_zookeeper () () () None
             Map.empty ''/'' = Inr c
          \<and> getNodeID c ''10.0.1.2:4440'' = Inr (NodeID 1 1)
          \<and> getNodeID c ''10.0.2.1:4440'' = Inr (NodeID 3 3)
          \<and> getNodeID c ''10.0.9.9:4440'' = Inl NOTFOUND)"
proof
  let ?dup = "[(0::nat, node_A), (1, node_B), (3, node_A)]"
  have d: "distinct (map fst ?dup)" by simp
  have "\<exists>i j n n'. i \<noteq> j \<and> (i, n) \<in> set ?dup \<and> (j, n') \<in> set ?dup \<and> address n = address n'"
    by (intro exI[of _ 0] exI[of _ 3] exI[of _ node_A]) simp
  with address_index_bijection[OF d, of "''test''" no_metadata_logs "()" "()" "()" "()"
        no_zookeeper "()" "()" "()" None Map.empty "''/''"]
  show "fromData ''test'' ?dup no_metadata_logs () () () ()
      no_zookeeper () () () None Map.empty ''/'' = Inl CHECK_FAILED"
    by (simp only: if_True)
next
  have d: "distinct (map fst cluster_ABC)" by (simp add: example_defs)
  have "distinct (map (\<lambda>p. address (snd p)) cluster_ABC)" by (simp add: example_defs)
  with shared_address_iff[OF d]
  have "\<not> (\<exists>i j n n'. i \<noteq> j \<and> (i, n) \<in> set cluster_ABC \<and> (j, n') \<in> set cluster_ABC
            \<and> address n = address n')"
    by simp
  with address_index_bijection[OF d, of "''test''" no_metadata_logs "()" "()" "()" "()"
        no_zookeeper "()" "()" "()" None Map.empty "''/''"]
  obtain c where c: "fromData ''test'' cluster_ABC no_metadata_logs () () () () no_zookeeper
        () () () None Map.empty ''/'' = Inr c"
    and stored: "\<forall>(i, n) \<in> set cluster_ABC. getNodeID c (address n) = Inr (NodeID i (generation n))"
    and other: "\<forall>a. a \<notin> (\<lambda>p. address (snd p)) ` set cluster_ABC \<longrightarrow> getNodeID c a = Inl NOTFOUND"
    by (simp only: if_False) blast
  from stored have "getNodeID c ''10.0.1.2:4440'' = Inr (NodeID 1 1)"
    "getNodeID c ''10.0.2.1:4440'' = Inr (NodeID 3 3)"
    by (simp_all add: example_defs)
  moreover from other have "getNodeID c ''10.0.9.9:4440'' = Inl NOTFOUND"
    by (simp add: example_defs)
  ultimately show "\<exists>c. fromData ''test'' cluster_ABC no_metadata_logs () () () () no_zookeeper () () () None
             Map.empty ''/'' = Inr c
          \<and> getNodeID c ''10.0.1.2:4440'' = Inr (NodeID 1 1)
          \<and> getNodeID c ''10.0.2.1:4440'' = Inr (NodeID 3 3)
          \<and> getNodeID c ''10.0.9.9:4440'' = Inl NOTFOUND"
    using c by blast
qed

section \<open>Normalized sequencer weights\<close>

text \<open>
  C6. In a constructed snapshot: when some node with sequencing enabled has a positive
  sequencer weight, the weight stored at the index of every node with sequencing enabled
  is that node's weight divided by the largest sequencer weight, and the largest stored
  weight is exactly 1; when every sequencer weight is 0, every stored weight is 0.
\<close>

theorem sequencer_weights_normalized:
  assumes c: "fromData cn ns md pc sec trc tsc zk sset cset il ct cf nd = Inr c"
    and d: "distinct (map fst ns)"
  shows "((\<exists>(i, n) \<in> set ns. isSequencingEnabled n \<and> 0 < getSequencerWeight n) \<longrightarrow>
            (\<forall>(i, n) \<in> set ns. isSequencingEnabled n \<longrightarrow>
               weights (sequencersConfig c) ! i
                 = getSequencerWeight n
                     / Max {getSequencerWeight n' | j n'. (j, n') \<in> set ns \<and> isSequencingEnabled n'})
            \<and> Max (set (weights (sequencersConfig c))) = 1)
       \<and> ((\<forall>(i, n) \<in> set ns. isSequencingEnabled n \<longrightarrow> getSequencerWeight n = 0) \<longrightarrow>
            (\<forall>w \<in> set (weights (sequencersConfig c)). w = 0))"
proof -
  let ?W = "Max {getSequencerWeight n' | j n'. (j, n') \<in> set ns \<and> isSequencingEnabled n'}"
  let ?P = "\<exists>(i, n) \<in> set ns. isSequencingEnabled n \<and> 0 < getSequencerWeight n"
  from fromData_Inr[OF c] have
    der: "derive_indices ns = Inr (addrToIndex c, sequencersConfig c)" by simp
  from derive_indices_weights[OF der d] obtain sc where
    run: "index_nodes ns Map.empty
            \<lparr>nodes = replicate (getMaxNodeIdx ns + 1) NodeID_default,
             weights = replicate (getMaxNodeIdx ns + 1) 0\<rparr> = Inr (addrToIndex c, sc)"
    and w: "weights (sequencersConfig c) = (if ?P then map (\<lambda>w. w / ?W) (weights sc) else weights sc)"
    by blast
  note mem = raw_weights_members[OF run d]
  note len = raw_sequencers(2)[OF run d]
  have part1: "(\<forall>(i, n) \<in> set ns. isSequencingEnabled n \<longrightarrow>
               weights (sequencersConfig c) ! i = getSequencerWeight n / ?W)
            \<and> Max (set (weights (sequencersConfig c))) = 1" if P: ?P
  proof
    from P w have ws: "weights (sequencersConfig c) = map (\<lambda>w. w / ?W) (weights sc)" by simp
    show "\<forall>(i, n) \<in> set ns. isSequencingEnabled n \<longrightarrow>
               weights (sequencersConfig c) ! i = getSequencerWeight n / ?W"
    proof (clarify)
      fix i n assume in0: "(i, n) \<in> set ns" "isSequencingEnabled n"
      from getMaxNodeIdx_ge[OF in0(1)] len have "i < length (weights sc)" by simp
      then show "weights (sequencersConfig c) ! i = getSequencerWeight n / ?W"
        using mem(2)[OF in0] by (simp add: ws)
    qed
    from raw_weights_Max(1)[OF run d P] have
      mx: "Max (set (weights sc)) = ?W" and pos: "0 < ?W" by simp_all
    have ne: "set (weights sc) \<noteq> {}" using len by auto
    show "Max (set (weights (sequencersConfig c))) = 1"
    proof (rule Max_eqI)
      show "finite (set (weights (sequencersConfig c)))" by simp
      have "Max (set (weights sc)) \<in> set (weights sc)" using ne by (intro Max_in) simp_all
      then have "?W / ?W \<in> set (weights (sequencersConfig c))"
        unfolding ws mx by (simp add: image_iff) blast
      with pos show "1 \<in> set (weights (sequencersConfig c))" by simp
      fix y assume "y \<in> set (weights (sequencersConfig c))"
      then obtain x where x: "x \<in> set (weights sc)" "y = x / ?W" unfolding ws by auto
      from x(1) have "x \<le> Max (set (weights sc))" by (intro Max_ge) simp_all
      with mx pos x(2) show "y \<le> 1" by (simp add: divide_le_eq)
    qed
  qed
  have part2: "\<forall>w \<in> set (weights (sequencersConfig c)). w = 0"
    if Z: "\<forall>(i, n) \<in> set ns. isSequencingEnabled n \<longrightarrow> getSequencerWeight n = 0"
  proof -
    from Z have "\<not> ?P" by fastforce
    with w have ws: "weights (sequencersConfig c) = weights sc" by simp
    show ?thesis
    proof
      fix y assume "y \<in> set (weights (sequencersConfig c))"
      then have "y \<in> set (weights sc)" by (simp add: ws)
      from mem(1)[OF this] Z show "y = 0" by auto
    qed
  qed
  from part1 part2 show ?thesis by blast
qed

theorem sequencer_weights_normalized_witness:
  "(\<exists>c. fromData ''test'' cluster_ABC no_metadata_logs () () () () no_zookeeper () () () None
           Map.empty ''/'' = Inr c
        \<and> weights (sequencersConfig c) ! 0 = 1 / 2
        \<and> weights (sequencersConfig c) ! 1 = 1
        \<and> Max (set (weights (sequencersConfig c))) = 1)
   \<and> (\<exists>c. fromData ''test'' [(0, node_D), (1, node_C)] no_metadata_logs () () () () no_zookeeper
             () () () None Map.empty ''/'' = Inr c
        \<and> weights (sequencersConfig c) = [0, 0])"
proof
  have d: "distinct (map fst cluster_ABC)" by (simp add: example_defs)
  have "distinct (map (\<lambda>p. address (snd p)) cluster_ABC)" by (simp add: example_defs)
  then obtain c where c: "fromData ''test'' cluster_ABC no_metadata_logs () () () () no_zookeeper
      () () () None Map.empty ''/'' = Inr c"
    using fromData_total[of "''test''" cluster_ABC no_metadata_logs "()" "()" "()" "()"
        no_zookeeper "()" "()" "()" None Map.empty "''/''"] by blast
  have P: "\<exists>(i, n) \<in> set cluster_ABC. isSequencingEnabled n \<and> 0 < getSequencerWeight n"
    by (simp add: example_defs)
  have S: "{getSequencerWeight n' | j n'. (j, n') \<in> set cluster_ABC \<and> isSequencingEnabled n'} = {2, 4}"
  proof (rule set_eqI)
    fix x
    have "x \<in> {getSequencerWeight n' | j n'. (j, n') \<in> set cluster_ABC \<and> isSequencingEnabled n'}
          = (\<exists>p \<in> set cluster_ABC. isSequencingEnabled (snd p) \<and> x = getSequencerWeight (snd p))"
      by force
    also have "\<dots> = (x \<in> {2, 4})" by (auto simp: example_defs)
    finally show "x \<in> {getSequencerWeight n' | j n'. (j, n') \<in> set cluster_ABC \<and> isSequencingEnabled n'}
          = (x \<in> {2, 4})" .
  qed
  from sequencer_weights_normalized[OF c d] P S
  have "(\<forall>(i, n) \<in> set cluster_ABC. isSequencingEnabled n \<longrightarrow>
               weights (sequencersConfig c) ! i = getSequencerWeight n / Max {2, 4})
        \<and> Max (set (weights (sequencersConfig c))) = 1"
    by simp
  then have all: "\<forall>(i, n) \<in> set cluster_ABC. isSequencingEnabled n \<longrightarrow>
               weights (sequencersConfig c) ! i = getSequencerWeight n / Max {2, 4}"
    and mx: "Max (set (weights (sequencersConfig c))) = 1" by simp_all
  have "(0, node_A) \<in> set cluster_ABC" "(1, node_B) \<in> set cluster_ABC"
    by (simp_all add: cluster_ABC_def)
  from all[rule_format, OF this(1)] all[rule_format, OF this(2)]
  have "weights (sequencersConfig c) ! 0 = 1 / 2" "weights (sequencersConfig c) ! 1 = 1"
    by (simp_all add: node_A_def node_B_def)
  with mx have "weights (sequencersConfig c) ! 0 = 1 / 2 \<and> weights (sequencersConfig c) ! 1 = 1
      \<and> Max (set (weights (sequencersConfig c))) = 1"
    by blast
  with c show "\<exists>c. fromData ''test'' cluster_ABC no_metadata_logs () () () () no_zookeeper () () () None
           Map.empty ''/'' = Inr c
        \<and> weights (sequencersConfig c) ! 0 = 1 / 2
        \<and> weights (sequencersConfig c) ! 1 = 1
        \<and> Max (set (weights (sequencersConfig c))) = 1"
    by blast
next
  let ?ns = "[(0::nat, node_D), (1, node_C)]"
  have d: "distinct (map fst ?ns)" by simp
  have "distinct (map (\<lambda>p. address (snd p)) ?ns)" by (simp add: example_defs)
  then obtain c where c: "fromData ''test'' ?ns no_metadata_logs () () () () no_zookeeper
      () () () None Map.empty ''/'' = Inr c"
    using fromData_total[of "''test''" ?ns no_metadata_logs "()" "()" "()" "()"
        no_zookeeper "()" "()" "()" None Map.empty "''/''"] by blast
  have Z: "\<forall>(i, n) \<in> set ?ns. isSequencingEnabled n \<longrightarrow> getSequencerWeight n = 0"
    by (simp add: example_defs)
  from sequencer_weights_normalized[OF c d] Z
  have z: "\<forall>w \<in> set (weights (sequencersConfig c)). w = 0" by blast
  from sequencers_length(2)[OF c d]
  have "length (weights (sequencersConfig c)) = 2"
    by (simp add: getMaxNodeIdx_def)
  with z have "weights (sequencersConfig c) = [0, 0]"
    by (cases "weights (sequencersConfig c)"; cases "tl (weights (sequencersConfig c))") auto
  with c show "\<exists>c. fromData ''test'' ?ns no_metadata_logs () () () () no_zookeeper
             () () () None Map.empty ''/'' = Inr c
        \<and> weights (sequencersConfig c) = [0, 0]" by blast
qed

section \<open>The sequencers config arrays\<close>

text \<open>
  C10, as the code has it. In a constructed snapshot both arrays of the sequencers config
  have length \<open>getMaxNodeIdx + 1\<close>. The index of a node with sequencing enabled holds the
  node ID built from the index and the node's generation, and the node's sequencer weight
  after scaling: divided by the largest sequencer weight when some weight is positive,
  unchanged otherwise. Every other index up to the largest one, gaps in the numbering
  included, holds the default node ID and weight 0.
\<close>

theorem sequencers_config_arrays:
  assumes c: "fromData cn ns md pc sec trc tsc zk sset cset il ct cf nd = Inr c"
    and d: "distinct (map fst ns)"
  shows "length (nodes (sequencersConfig c)) = getMaxNodeIdx ns + 1
       \<and> length (weights (sequencersConfig c)) = getMaxNodeIdx ns + 1
       \<and> (\<forall>k \<le> getMaxNodeIdx ns.
            case map_of ns k of
              None \<Rightarrow>
                nodes (sequencersConfig c) ! k = NodeID_default
                \<and> weights (sequencersConfig c) ! k = 0
            | Some n \<Rightarrow>
                if isSequencingEnabled n
                then nodes (sequencersConfig c) ! k = NodeID k (generation n)
                   \<and> weights (sequencersConfig c) ! k =
                       (if \<exists>(j, n') \<in> set ns. isSequencingEnabled n' \<and> 0 < getSequencerWeight n'
                        then getSequencerWeight n
                               / Max {getSequencerWeight n' | j n'. (j, n') \<in> set ns \<and> isSequencingEnabled n'}
                        else getSequencerWeight n)
                else nodes (sequencersConfig c) ! k = NodeID_default
                   \<and> weights (sequencersConfig c) ! k = 0)"
proof -
  let ?W = "Max {getSequencerWeight n' | j n'. (j, n') \<in> set ns \<and> isSequencingEnabled n'}"
  let ?P = "\<exists>(i, n) \<in> set ns. isSequencingEnabled n \<and> 0 < getSequencerWeight n"
  from fromData_Inr[OF c] have
    der: "derive_indices ns = Inr (addrToIndex c, sequencersConfig c)" by simp
  from derive_indices_weights[OF der d] obtain sc where
    run: "index_nodes ns Map.empty
            \<lparr>nodes = replicate (getMaxNodeIdx ns + 1) NodeID_default,
             weights = replicate (getMaxNodeIdx ns + 1) 0\<rparr> = Inr (addrToIndex c, sc)"
    and n: "nodes (sequencersConfig c) = nodes sc"
    and w: "weights (sequencersConfig c) = (if ?P then map (\<lambda>w. w / ?W) (weights sc) else weights sc)"
    by blast
  note raw = raw_sequencers[OF run d]
  have l1: "length (nodes (sequencersConfig c)) = getMaxNodeIdx ns + 1"
    using raw(1) n by simp
  have l2: "length (weights (sequencersConfig c)) = getMaxNodeIdx ns + 1"
    using raw(2) w by simp
  have wk: "weights (sequencersConfig c) ! k = (if ?P then weights sc ! k / ?W else weights sc ! k)"
    if "k \<le> getMaxNodeIdx ns" for k
    using that raw(2) w by simp
  have "case map_of ns k of
              None \<Rightarrow>
                nodes (sequencersConfig c) ! k = NodeID_default
                \<and> weights (sequencersConfig c) ! k = 0
            | Some n \<Rightarrow>
                if isSequencingEnabled n
                then nodes (sequencersConfig c) ! k = NodeID k (generation n)
                   \<and> weights (sequencersConfig c) ! k =
                       (if ?P then getSequencerWeight n / ?W else getSequencerWeight n)
                else nodes (sequencersConfig c) ! k = NodeID_default
                   \<and> weights (sequencersConfig c) ! k = 0"
    if k: "k \<le> getMaxNodeIdx ns" for k
    using raw(3)[OF k] raw(4)[OF k] wk[OF k] n
    by (cases "map_of ns k") simp_all
  with l1 l2 show ?thesis by blast
qed

theorem sequencers_config_arrays_witness:
  "\<exists>c. fromData ''test'' cluster_ABC no_metadata_logs () () () () no_zookeeper () () () None
          Map.empty ''/'' = Inr c
     \<and> length (nodes (sequencersConfig c)) = 4
     \<and> length (weights (sequencersConfig c)) = 4
     \<and> nodes (sequencersConfig c) ! 1 = NodeID 1 1
     \<and> weights (sequencersConfig c) ! 1 = 4 / Max {2, 4}
     \<and> nodes (sequencersConfig c) ! 2 = NodeID_default
     \<and> weights (sequencersConfig c) ! 2 = 0
     \<and> nodes (sequencersConfig c) ! 3 = NodeID_default
     \<and> weights (sequencersConfig c) ! 3 = 0"
proof -
  have d: "distinct (map fst cluster_ABC)" by (simp add: example_defs)
  have "distinct (map (\<lambda>p. address (snd p)) cluster_ABC)" by (simp add: example_defs)
  then obtain c where c: "fromData ''test'' cluster_ABC no_metadata_logs () () () () no_zookeeper
      () () () None Map.empty ''/'' = Inr c"
    using fromData_total[of "''test''" cluster_ABC no_metadata_logs "()" "()" "()" "()"
        no_zookeeper "()" "()" "()" None Map.empty "''/''"] by blast
  have mx: "getMaxNodeIdx cluster_ABC = 3" by (simp add: getMaxNodeIdx_def cluster_ABC_def)
  have P: "\<exists>(i, n) \<in> set cluster_ABC. isSequencingEnabled n \<and> 0 < getSequencerWeight n"
    by (simp add: example_defs)
  have S: "{getSequencerWeight n' | j n'. (j, n') \<in> set cluster_ABC \<and> isSequencingEnabled n'} = {2, 4}"
  proof (rule set_eqI)
    fix x
    have "x \<in> {getSequencerWeight n' | j n'. (j, n') \<in> set cluster_ABC \<and> isSequencingEnabled n'}
          = (\<exists>p \<in> set cluster_ABC. isSequencingEnabled (snd p) \<and> x = getSequencerWeight (snd p))"
      by force
    also have "\<dots> = (x \<in> {2, 4})" by (auto simp: example_defs)
    finally show "x \<in> {getSequencerWeight n' | j n'. (j, n') \<in> set cluster_ABC \<and> isSequencingEnabled n'}
          = (x \<in> {2, 4})" .
  qed
  note arr = sequencers_config_arrays[OF c d, unfolded mx S]
  from arr have l: "length (nodes (sequencersConfig c)) = 4" "length (weights (sequencersConfig c)) = 4"
    by simp_all
  from arr have all: "\<forall>k \<le> 3.
            case map_of cluster_ABC k of
              None \<Rightarrow>
                nodes (sequencersConfig c) ! k = NodeID_default
                \<and> weights (sequencersConfig c) ! k = 0
            | Some n \<Rightarrow>
                if isSequencingEnabled n
                then nodes (sequencersConfig c) ! k = NodeID k (generation n)
                   \<and> weights (sequencersConfig c) ! k =
                       (if \<exists>(j, n') \<in> set cluster_ABC. isSequencingEnabled n' \<and> 0 < getSequencerWeight n'
                        then getSequencerWeight n / Max {2, 4}
                        else getSequencerWeight n)
                else nodes (sequencersConfig c) ! k = NodeID_default
                   \<and> weights (sequencersConfig c) ! k = 0"
    by blast
  from all[rule_format, of 1] P
  have k1: "nodes (sequencersConfig c) ! 1 = NodeID 1 1"
    "weights (sequencersConfig c) ! 1 = 4 / Max {2, 4}"
    by (simp_all add: cluster_ABC_def node_A_def node_B_def node_C_def)
  from all[rule_format, of 2]
  have k2: "nodes (sequencersConfig c) ! 2 = NodeID_default" "weights (sequencersConfig c) ! 2 = 0"
    by (simp_all add: cluster_ABC_def)
  from all[rule_format, of 3]
  have k3: "nodes (sequencersConfig c) ! 3 = NodeID_default" "weights (sequencersConfig c) ! 3 = 0"
    by (simp_all add: cluster_ABC_def node_C_def)
  from c l k1 k2 k3 show ?thesis by blast
qed

text \<open>
  The weight stored after construction is the scaled one, not the node's own: a single
  sequencer node of weight 2 is stored with weight 1.
\<close>

theorem sequencers_config_raw_weight_counterexample:
  "isSequencingEnabled node_A \<and> getSequencerWeight node_A = 2
   \<and> map_sum id (\<lambda>c. (nodes (sequencersConfig c), weights (sequencersConfig c)))
       (fromData ''test'' [(0, node_A)] no_metadata_logs () () () () no_zookeeper () () () None
          Map.empty ''/'')
     = Inr ([NodeID 0 1], [1])"
  by (simp add: fromData_def ServerConfig_ctor_def derive_indices_def getMaxNodeIdx_def
        insert_addr_def set_sequencer_def scale_weights_def max_element_def node_A_def)

section \<open>Derive operations\<close>

text \<open>
  A snapshot is constructed when its derived members are those that the constructor
  computes from its nodes map: \<open>derive_indices (nodesConfig s) = Inr (addrToIndex s,
  sequencersConfig s)\<close>. The setters keep this.
\<close>

lemma config_setters [simp]:
  "setVersion v c = c\<lparr>version := v\<rparr>"
  "setMyNodeID i c = c\<lparr>my_node_id := i\<rparr>"
  "setServerOrigin i c = c\<lparr>server_origin := i\<rparr>"
  "setMainConfigMetadata md c = c\<lparr>main_config_metadata := md\<rparr>"
  "setIncludedConfigMetadata md c = c\<lparr>included_config_metadata := md\<rparr>"
  by (simp_all add: setVersion_def setMyNodeID_def setServerOrigin_def
        setMainConfigMetadata_def setIncludedConfigMetadata_def)

lemma derive_indices_cluster_ABC:
  "derive_indices cluster_ABC
     = Inr ([''10.0.1.1:4440'' \<mapsto> 0, ''10.0.1.2:4440'' \<mapsto> 1, ''10.0.2.1:4440'' \<mapsto> 3],
            \<lparr>nodes = [NodeID 0 1, NodeID 1 1, NodeID_default, NodeID_default],
             weights = [1 / 2, 1, 0, 0]\<rparr>)"
  by (simp add: derive_indices_def getMaxNodeIdx_def insert_addr_def set_sequencer_def
        scale_weights_def max_element_def example_defs numeral_3_eq_3)

lemma snapshot_ABC_constructed:
  "derive_indices (nodesConfig snapshot_ABC)
     = Inr (addrToIndex snapshot_ABC, sequencersConfig snapshot_ABC)"
  by (simp add: snapshot_ABC_def derive_indices_cluster_ABC)

lemma my_node_id_default: "\<not> hasMyNodeID s \<Longrightarrow> my_node_id s = NodeID_default"
  by (cases "my_node_id s") (simp_all add: hasMyNodeID_def)

lemma fromData_members:
  assumes "derive_indices (nodesConfig s) = Inr (addrToIndex s, sequencersConfig s)"
  shows "fromData (clusterName s) (nodesConfig s) (metaDataLogsConfig s)
             (principalsConfig s) (securityConfig s) (traceLoggerConfig s)
             (trafficShapingConfig s) zk (serverSettingsConfig s)
             (clientSettingsConfig s) (internalLogs s) (clusterCreationTime s)
             (customFields s) (ns_delimiter s)
         = Inr (s\<lparr>zookeeperConfig := zk, version := 0, my_node_id := NodeID_default,
                  server_origin := NodeID_default, main_config_metadata := None,
                  included_config_metadata := None\<rparr>)"
  using assms by (cases s) (simp add: fromData_def ServerConfig_ctor_def)

lemma withVersion_result:
  assumes "derive_indices (nodesConfig s) = Inr (addrToIndex s, sequencersConfig s)"
  shows "withVersion v s = Inr (s\<lparr>version := v, server_origin := NodeID_default\<rparr>)"
proof -
  have zk: "s\<lparr>zookeeperConfig := zookeeperConfig s\<rparr> = s" by simp
  from fromData_members[OF assms, of "zookeeperConfig s"] my_node_id_default[of s]
  show ?thesis
    by (cases "hasMyNodeID s") (cases s; simp add: withVersion_def Let_def)+
qed

lemma withZookeeperConfig_result:
  assumes "derive_indices (nodesConfig s) = Inr (addrToIndex s, sequencersConfig s)"
  shows "withZookeeperConfig zk s
           = Inr (s\<lparr>zookeeperConfig := zk, server_origin := NodeID_default\<rparr>)"
proof -
  from fromData_members[OF assms, of zk] my_node_id_default[of s]
  show ?thesis
    by (cases "hasMyNodeID s") (cases s; simp add: withZookeeperConfig_def Let_def)+
qed

lemma copy_result:
  assumes "derive_indices (nodesConfig s) = Inr (addrToIndex s, sequencersConfig s)"
  shows "copy s = Inr s"
proof -
  from fromData_members[OF assms, of "zookeeperConfig s"] my_node_id_default[of s]
  show ?thesis
    by (cases "hasMyNodeID s") (cases s; simp add: copy_def Let_def)+
qed

lemma withNodes_Inl:
  assumes "withNodes nn s = Inl e"
  shows "e = CHECK_FAILED \<and> \<not> distinct (map (\<lambda>p. address (snd p)) nn)"
proof -
  from assms obtain md where "fromData (clusterName s) nn md
                (principalsConfig s) (securityConfig s) (traceLoggerConfig s)
                (trafficShapingConfig s) (zookeeperConfig s) (serverSettingsConfig s)
                (clientSettingsConfig s) (internalLogs s) (clusterCreationTime s)
                (customFields s) (ns_delimiter s) = Inl e"
    by (auto simp: withNodes_def Let_def split: sum.splits)
  then have f: "derive_indices nn = Inl e" by (rule fromData_Inl)
  then have "e = CHECK_FAILED" by (rule derive_indices_error)
  moreover from f have "\<not> (\<exists>r. derive_indices nn = Inr r)" by simp
  then have "\<not> distinct (map (\<lambda>p. address (snd p)) nn)"
    by (simp only: derive_indices_succeeds_iff not_False_eq_True)
  ultimately show ?thesis by simp
qed

lemma withNodes_Inr:
  assumes "withNodes nn s = Inr s'"
  shows "metadata_nodes (metaDataLogsConfig s')
           = filter (\<lambda>n. n \<in> fst ` set nn) (metadata_nodes (metaDataLogsConfig s))"
    and "nodesConfig s' = nn"
    and "derive_indices nn = Inr (addrToIndex s', sequencersConfig s')"
proof -
  let ?keep = "filter (\<lambda>n. map_of nn n \<noteq> None) (metadata_nodes (metaDataLogsConfig s))"
  let ?md = "if metadata_nodes (metaDataLogsConfig s) \<noteq> ?keep
             then (metaDataLogsConfig s)\<lparr>metadata_nodes := ?keep\<rparr>
             else metaDataLogsConfig s"
  have md: "metadata_nodes ?md = ?keep" by simp
  from assms obtain c where
    c: "fromData (clusterName s) nn ?md
                (principalsConfig s) (securityConfig s) (traceLoggerConfig s)
                (trafficShapingConfig s) (zookeeperConfig s) (serverSettingsConfig s)
                (clientSettingsConfig s) (internalLogs s) (clusterCreationTime s)
                (customFields s) (ns_delimiter s) = Inr c"
    and s': "s' = (if hasMyNodeID s then c\<lparr>version := version s, my_node_id := my_node_id s\<rparr>
                   else c\<lparr>version := version s\<rparr>)
                  \<lparr>main_config_metadata := main_config_metadata s,
                   included_config_metadata := included_config_metadata s\<rparr>"
    by (auto simp: withNodes_def Let_def split: sum.splits if_splits)
  from fromData_Inr[OF c] have
    der: "derive_indices nn = Inr (addrToIndex c, sequencersConfig c)" and ns: "nodesConfig c = nn"
    by simp_all
  from c have mdc: "metaDataLogsConfig c = ?md"
    by (auto simp: fromData_def ServerConfig_ctor_def split: sum.splits)
  have keep: "?keep = filter (\<lambda>n. n \<in> fst ` set nn) (metadata_nodes (metaDataLogsConfig s))"
    by (simp add: map_of_eq_None_iff)
  show "metadata_nodes (metaDataLogsConfig s')
           = filter (\<lambda>n. n \<in> fst ` set nn) (metadata_nodes (metaDataLogsConfig s))"
    unfolding keep[symmetric] using md mdc by (simp add: s')
  show "nodesConfig s' = nn" using ns by (simp add: s')
  show "derive_indices nn = Inr (addrToIndex s', sequencersConfig s')" using der by (simp add: s')
qed

text \<open>
  C7. \<open>withNodes\<close> aborts only on the failed check of the constructor, when two of the
  new nodes share an address. Otherwise the metadata-logs nodeset of the new snapshot is
  the nodeset of the old one restricted, in order, to the node indices present in the new
  nodes map; the new snapshot holds the new nodes map, and its address index and
  sequencers config are those that the constructor derives from the new nodes map.
\<close>

theorem withNodes_metadata_nodeset:
  "case withNodes nn s of
     Inl e \<Rightarrow> e = CHECK_FAILED \<and> \<not> distinct (map (\<lambda>p. address (snd p)) nn)
   | Inr s' \<Rightarrow>
       metadata_nodes (metaDataLogsConfig s')
         = filter (\<lambda>n. n \<in> fst ` set nn) (metadata_nodes (metaDataLogsConfig s))
       \<and> nodesConfig s' = nn
       \<and> derive_indices nn = Inr (addrToIndex s', sequencersConfig s')"
proof (cases "withNodes nn s")
  case (Inl e)
  with withNodes_Inl[OF Inl] show ?thesis by simp
next
  case (Inr s')
  with withNodes_Inr[OF Inr] show ?thesis by simp
qed

theorem withNodes_metadata_nodeset_witness:
  "\<exists>s'. withNodes [(1, node_B), (3, node_C)] snapshot_ABC = Inr s'
      \<and> metadata_nodes (metaDataLogsConfig snapshot_ABC) = [0, 2, 3, 1]
      \<and> metadata_nodes (metaDataLogsConfig s') = [3, 1]
      \<and> nodesConfig s' = [(1, node_B), (3, node_C)]"
proof (cases "withNodes [(1, node_B), (3, node_C)] snapshot_ABC")
  case (Inl e)
  with withNodes_metadata_nodeset[of "[(1, node_B), (3, node_C)]" snapshot_ABC]
  show ?thesis by (simp add: example_defs)
next
  case (Inr s')
  with withNodes_metadata_nodeset[of "[(1, node_B), (3, node_C)]" snapshot_ABC]
  show ?thesis by (simp add: snapshot_ABC_def)
qed

text \<open>
  C8, at a snapshot whose server origin is set. \<open>withVersion\<close> and
  \<open>withZookeeperConfig\<close> replace the named member and keep every other one but the
  server origin, which they leave at the default of the new object (the lemmas
  \<open>withVersion_result\<close> and \<open>withZookeeperConfig_result\<close> above, for every constructed
  snapshot); \<open>copy\<close> carries the server origin over.
\<close>

theorem with_field_drops_server_origin:
  "server_origin snapshot_ABC = NodeID 1 1
   \<and> withVersion 6 snapshot_ABC
       = Inr (snapshot_ABC\<lparr>version := 6, server_origin := NodeID_default\<rparr>)
   \<and> withZookeeperConfig \<lparr>quorum = [''10.0.3.1:2181''], session_timeout = 30000\<rparr> snapshot_ABC
       = Inr (snapshot_ABC\<lparr>zookeeperConfig := \<lparr>quorum = [''10.0.3.1:2181''], session_timeout = 30000\<rparr>,
                           server_origin := NodeID_default\<rparr>)
   \<and> copy snapshot_ABC = Inr snapshot_ABC"
  using withVersion_result[OF snapshot_ABC_constructed, of 6]
    withZookeeperConfig_result[OF snapshot_ABC_constructed,
      of "\<lparr>quorum = [''10.0.3.1:2181''], session_timeout = 30000\<rparr>"]
    copy_result[OF snapshot_ABC_constructed]
  by (simp add: snapshot_ABC_def)

section \<open>Custom fields of a configuration document\<close>

lemma collect_custom_fields_recognized:
  "k \<in> config_recognized_keys \<Longrightarrow> collect_custom_fields items m k = m k"
  by (induction items m rule: collect_custom_fields.induct) auto

lemma collect_custom_fields_other:
  "k \<notin> config_recognized_keys \<Longrightarrow> distinct (map fst items) \<Longrightarrow>
     collect_custom_fields items m k = (case map_of items k of None \<Rightarrow> m k | Some v \<Rightarrow> Some v)"
proof (induction items arbitrary: m)
  case Nil
  then show ?case by simp
next
  case (Cons x xs)
  obtain key val where x: "x = (key, val)" by (cases x)
  from Cons.prems(2) have d: "distinct (map fst xs)" and fresh: "map_of xs key = None"
    by (simp_all add: x map_of_eq_None_iff)
  note IH = Cons.IH[OF Cons.prems(1) d]
  show ?case
  proof (cases "key \<in> config_recognized_keys")
    case True
    with Cons.prems(1) have "k \<noteq> key" by auto
    with True IH[of m] show ?thesis by (simp add: x)
  next
    case False
    have step: "collect_custom_fields (x # xs) m k = collect_custom_fields xs (m(key \<mapsto> val)) k"
      using False by (simp add: x)
    show ?thesis
    proof (cases "k = key")
      case True
      have "collect_custom_fields xs (m(key \<mapsto> val)) k
              = (case map_of xs k of None \<Rightarrow> (m(key \<mapsto> val)) k | Some v \<Rightarrow> Some v)"
        by (rule IH)
      also have "\<dots> = Some val" by (simp add: True fresh)
      also have "Some val = (case map_of (x # xs) k of None \<Rightarrow> m k | Some v \<Rightarrow> Some v)"
        by (simp add: True x)
      finally show ?thesis unfolding step .
    next
      case False
      have "collect_custom_fields xs (m(key \<mapsto> val)) k
              = (case map_of xs k of None \<Rightarrow> (m(key \<mapsto> val)) k | Some v \<Rightarrow> Some v)"
        by (rule IH)
      also have "\<dots> = (case map_of (x # xs) k of None \<Rightarrow> m k | Some v \<Rightarrow> Some v)"
        using False by (simp add: x split: option.split)
      finally show ?thesis unfolding step .
    qed
  qed
qed

lemma fromData_customFields:
  "fromData cn ns md pc sec trc tsc zk sset cset il ct cf nd = Inr c \<Longrightarrow> customFields c = cf"
  by (auto simp: fromData_def ServerConfig_ctor_def split: sum.splits)

lemma fromJson_customFields:
  assumes "fromJson parseSections (DObject items) = Inr c"
  shows "customFields c = collect_custom_fields items Map.empty"
proof -
  from assms obtain delim where d: "namespace_delimiter items = Inr delim"
    by (cases "namespace_delimiter items") (simp_all add: fromJson_def)
  from assms d obtain p where p: "parseSections items delim = Some p"
    by (cases "parseSections items delim") (simp_all add: fromJson_def)
  let ?built = "fromData (parsed_clusterName p) (parsed_nodesConfig p)
           (parsed_metaDataLogsConfig p) (parsed_principalsConfig p)
           (parsed_securityConfig p) (parsed_traceLoggerConfig p)
           (parsed_trafficShapingConfig p) (parsed_zookeeperConfig p)
           (parsed_serverSettingsConfig p) (parsed_clientSettingsConfig p)
           (parsed_internalLogs p) (parsed_clusterCreationTime p)
           (collect_custom_fields items Map.empty) delim"
  from assms d p obtain c0 where c0: "?built = Inr c0"
    by (cases ?built) (simp_all add: fromJson_def)
  from assms d p c0 have c: "c = setVersion (parsed_version p) c0"
    by (simp add: fromJson_def)
  from fromData_customFields[OF c0] c show ?thesis by (simp add: setVersion_def)
qed

lemma custom_fields_of_document:
  assumes "fromJson parseSections (DObject items) = Inr c" and "distinct (map fst items)"
  shows "customFields c k = (if k \<in> config_recognized_keys then None else map_of items k)"
proof (cases "k \<in> config_recognized_keys")
  case True
  with collect_custom_fields_recognized[OF True, of items Map.empty]
  show ?thesis by (simp add: fromJson_customFields[OF assms(1)])
next
  case False
  with collect_custom_fields_other[OF False assms(2), of Map.empty]
  show ?thesis by (simp add: fromJson_customFields[OF assms(1)] split: option.splits)
qed

text \<open>
  C9, at a document with the keys \<open>cluster\<close>, \<open>internal_logs\<close>, \<open>include_log_config\<close>
  and \<open>owner\<close>. A key of an accepted document is stored as a custom field iff it is not
  in \<open>config_recognized_keys\<close> (\<open>custom_fields_of_document\<close> above). The key
  \<open>internal_logs\<close> is not in that set: the document's \<open>internal_logs\<close> section is stored
  as a custom field, like the unknown key \<open>owner\<close>.
\<close>

theorem internal_logs_is_custom_field:
  "''internal_logs'' \<notin> config_recognized_keys
   \<and> ''include_log_config'' \<in> config_recognized_keys
   \<and> map_sum id (\<lambda>c. (customFields c ''cluster'', customFields c ''internal_logs'',
                        customFields c ''include_log_config'', customFields c ''owner''))
       (fromJson (\<lambda>items delim. Some sections_ABC)
          (DObject [(''cluster'', DString ''test''),
                    (''internal_logs'', DObject [(''config_log_deltas'', DObject [])]),
                    (''include_log_config'', DString ''logs.conf''),
                    (''owner'', DString ''team'')]))
     = Inr (None, Some (DObject [(''config_log_deltas'', DObject [])]), None,
            Some (DString ''team''))"
  by (simp add: fromJson_def namespace_delimiter_def getStringFromMap_def
        default_namespace_delimiter_def sections_ABC_def fromData_def ServerConfig_ctor_def
        derive_indices_cluster_ABC config_recognized_keys_def)

section \<open>The replication check\<close>

text \<open>
  The loop of \<open>validStorageSet\<close> fails in strict mode on a shard whose node is absent,
  and otherwise sets the attribute of exactly the shards whose node is present and a
  writable storage node. \<open>validStorageSet_iff\<close> characterises the result for every input.
\<close>

lemma tag_writable_strict_absent:
  "\<exists>s \<in> set ss. map_of ns (node_of s) = None \<Longrightarrow> tag_writable ns True ss fd = None"
proof (induction ss arbitrary: fd)
  case Nil
  then show ?case by simp
next
  case (Cons s ss)
  show ?case
  proof (cases "map_of ns (node_of s)")
    case None
    then show ?thesis by simp
  next
    case (Some n)
    with Cons.prems have "\<exists>s \<in> set ss. map_of ns (node_of s) = None" by auto
    from Cons.IH[OF this] Some show ?thesis by simp
  qed
qed

lemma tag_writable_succeeds:
  "strict \<longrightarrow> (\<forall>s \<in> set ss. map_of ns (node_of s) \<noteq> None) \<Longrightarrow>
     \<exists>fd'. tag_writable ns strict ss fd = Some fd'"
proof (induction ss arbitrary: fd)
  case Nil
  then show ?case by simp
next
  case (Cons s ss)
  from Cons.prems have rest: "strict \<longrightarrow> (\<forall>s \<in> set ss. map_of ns (node_of s) \<noteq> None)"
    by simp
  show ?case
  proof (cases "map_of ns (node_of s)")
    case None
    with Cons.prems have "\<not> strict" by auto
    with None Cons.IH[OF rest, of fd] show ?thesis by simp
  next
    case (Some n)
    with Cons.IH[OF rest, of fd] Cons.IH[OF rest, of "setShardAttribute fd s True"]
    show ?thesis by simp
  qed
qed

lemma tag_writable_result:
  "tag_writable ns strict ss fd = Some fd' \<Longrightarrow>
     fd_shards fd' = fd_shards fd \<and> fd_replication fd' = fd_replication fd
     \<and> (\<forall>x. fd_attribute fd' x =
          (if x \<in> set ss \<and> (\<exists>n. map_of ns (node_of x) = Some n \<and> isWritableStorageNode n)
           then Some True else fd_attribute fd x))"
proof (induction ss arbitrary: fd)
  case Nil
  then show ?case by simp
next
  case (Cons s ss)
  show ?case
  proof (cases "map_of ns (node_of s)")
    case None
    with Cons.prems have "tag_writable ns strict ss fd = Some fd'"
      by (simp split: if_splits)
    from Cons.IH[OF this] None show ?thesis by auto
  next
    case (Some n)
    show ?thesis
    proof (cases "isWritableStorageNode n")
      case True
      with Some Cons.prems have "tag_writable ns strict ss (setShardAttribute fd s True) = Some fd'"
        by simp
      from Cons.IH[OF this] Some True show ?thesis
        by (auto simp: setShardAttribute_def)
    next
      case False
      with Some Cons.prems have "tag_writable ns strict ss fd = Some fd'" by simp
      from Cons.IH[OF this] Some False show ?thesis by auto
    qed
  qed
qed

lemma set_fd_shards:
  "set (fd_shards (FailureDomainNodeSet_ctor ss ns rep))
     = {(s, n). s \<in> set ss \<and> map_of ns (node_of s) = Some n}"
  by (auto simp: FailureDomainNodeSet_ctor_def split: option.splits)

lemma domains_with_card:
  assumes "tag_writable ns strict ss (FailureDomainNodeSet_ctor ss ns rep) = Some fd'"
  shows "length (domains_with fd' True scope)
     = card {d. \<exists>s \<in> set ss. \<exists>n. map_of ns (node_of s) = Some n \<and> isWritableStorageNode n
                  \<and> d = domain_of scope s n}"
proof -
  let ?fd = "FailureDomainNodeSet_ctor ss ns rep"
  from tag_writable_result[OF assms] have
    sh: "fd_shards fd' = fd_shards ?fd"
    and at: "\<And>x. fd_attribute fd' x =
          (if x \<in> set ss \<and> (\<exists>n. map_of ns (node_of x) = Some n \<and> isWritableStorageNode n)
           then Some True else fd_attribute ?fd x)"
    by simp_all
  have empty: "\<And>x. fd_attribute ?fd x = None" by (simp add: FailureDomainNodeSet_ctor_def)
  have attr: "\<And>x. (fd_attribute fd' x = Some True)
      = (x \<in> set ss \<and> (\<exists>n. map_of ns (node_of x) = Some n \<and> isWritableStorageNode n))"
    by (simp add: at empty)
  have "set (filter (\<lambda>(s, n). fd_attribute fd' s = Some True) (fd_shards fd'))
        = {(s, n). s \<in> set ss \<and> map_of ns (node_of s) = Some n \<and> isWritableStorageNode n}"
    unfolding sh by (auto simp: set_fd_shards attr)
  then have "set (map (\<lambda>(s, n). domain_of scope s n)
          (filter (\<lambda>(s, n). fd_attribute fd' s = Some True) (fd_shards fd')))
        = (\<lambda>(s, n). domain_of scope s n)
            ` {(s, n). s \<in> set ss \<and> map_of ns (node_of s) = Some n \<and> isWritableStorageNode n}"
    by (simp only: set_map)
  also have "\<dots> = {d. \<exists>s \<in> set ss. \<exists>n. map_of ns (node_of s) = Some n \<and> isWritableStorageNode n
                  \<and> d = domain_of scope s n}"
    by (auto simp: image_iff) blast
  finally have "set (map (\<lambda>(s, n). domain_of scope s n)
          (filter (\<lambda>(s, n). fd_attribute fd' s = Some True) (fd_shards fd')))
        = {d. \<exists>s \<in> set ss. \<exists>n. map_of ns (node_of s) = Some n \<and> isWritableStorageNode n
                  \<and> d = domain_of scope s n}" .
  then show ?thesis
    by (simp only: domains_with_def length_remdups_card_conv)
qed

lemma validStorageSet_iff:
  "validStorageSet ns ss rep strict =
     (isValid rep
      \<and> (strict \<longrightarrow> (\<forall>s \<in> set ss. map_of ns (node_of s) \<noteq> None))
      \<and> (\<forall>(scope, required) \<in> set rep.
           required \<le> card {d. \<exists>s \<in> set ss. \<exists>n. map_of ns (node_of s) = Some n
                                  \<and> isWritableStorageNode n \<and> d = domain_of scope s n}))"
proof (cases "isValid rep")
  case False
  then show ?thesis by (simp add: validStorageSet_def)
next
  case valid: True
  show ?thesis
  proof (cases "strict \<longrightarrow> (\<forall>s \<in> set ss. map_of ns (node_of s) \<noteq> None)")
    case False
    then have "strict" and "\<exists>s \<in> set ss. map_of ns (node_of s) = None" by auto
    from tag_writable_strict_absent[OF this(2)] this(1) False valid show ?thesis
      by (simp add: validStorageSet_def)
  next
    case True
    from tag_writable_succeeds[OF True] obtain fd' where
      fd': "tag_writable ns strict ss (FailureDomainNodeSet_ctor ss ns rep) = Some fd'" by blast
    from tag_writable_result[OF fd'] have "fd_replication fd' = rep"
      by (simp add: FailureDomainNodeSet_ctor_def)
    then have "canReplicate fd' True =
         (\<forall>(scope, required) \<in> set rep.
           required \<le> card {d. \<exists>s \<in> set ss. \<exists>n. map_of ns (node_of s) = Some n
                                  \<and> isWritableStorageNode n \<and> d = domain_of scope s n})"
      by (simp add: canReplicate_def list_all_iff domains_with_card[OF fd'])
    with fd' valid True show ?thesis by (simp add: validStorageSet_def)
  qed
qed

lemmas shard_defs = shard_A_def shard_B_def shard_C_def shard_Z_def

lemmas validStorageSet_eval =
  validStorageSet_def isValid_def FailureDomainNodeSet_ctor_def setShardAttribute_def
  canReplicate_def domains_with_def domain_of_def

lemma validStorageSet_examples:
  "validStorageSet cluster_ABC [shard_A, shard_B, shard_C] [(RACK, 2)] False = True"
  "validStorageSet cluster_ABC [shard_A, shard_B, shard_C] [(RACK, 2)] True = True"
  "validStorageSet cluster_ABC [shard_A, shard_B] [(RACK, 2)] False = False"
  "validStorageSet cluster_ABC [shard_A, shard_B] [(RACK, 2)] True = False"
  "validStorageSet cluster_ABC [shard_A, shard_C, shard_Z] [(RACK, 2)] False = True"
  "validStorageSet cluster_ABC [shard_A, shard_C, shard_Z] [(RACK, 2)] True = False"
  "validStorageSet cluster_ABC [shard_A, shard_C] [(RACK, 2)] False = True"
  "validStorageSet cluster_ABC [shard_A, shard_C] [(RACK, 2)] True = True"
  by (simp_all add: validStorageSet_eval example_defs shard_defs)

text \<open>
  C1, as the code has it. For a valid replication property, and in strict mode only when
  every shard's node index is present in the topology: \<open>validStorageSet\<close> returns true
  iff at every scope of the replication property the number of distinct failure domains
  that hold a shard of the storage set whose node is present and a writable storage node
  is at least the required count. With A and B in rack 1 and C in rack 2, two racks
  required: the storage set A, B, C passes, the storage set A, B fails.
\<close>

theorem validStorageSet_distinct_domains:
  assumes "isValid rep"
    and "strict \<longrightarrow> (\<forall>s \<in> set ss. map_of ns (node_of s) \<noteq> None)"
  shows "validStorageSet ns ss rep strict =
     (\<forall>(scope, required) \<in> set rep.
         required \<le> card {d. \<exists>s \<in> set ss. \<exists>n. map_of ns (node_of s) = Some n
                                \<and> isWritableStorageNode n \<and> d = domain_of scope s n})"
proof -
  from assms have "validStorageSet ns ss rep strict =
     (True \<and> True \<and> (\<forall>(scope, required) \<in> set rep.
         required \<le> card {d. \<exists>s \<in> set ss. \<exists>n. map_of ns (node_of s) = Some n
                                \<and> isWritableStorageNode n \<and> d = domain_of scope s n}))"
    by (subst validStorageSet_iff) blast
  then show ?thesis by (simp only: simp_thms)
qed

theorem validStorageSet_distinct_domains_witness:
  "isValid [(RACK, 2)]
   \<and> validStorageSet cluster_ABC [shard_A, shard_B, shard_C] [(RACK, 2)] False = True
   \<and> 2 \<le> card {d. \<exists>s \<in> set [shard_A, shard_B, shard_C]. \<exists>n.
                   map_of cluster_ABC (node_of s) = Some n
                   \<and> isWritableStorageNode n \<and> d = domain_of RACK s n}
   \<and> validStorageSet cluster_ABC [shard_A, shard_B] [(RACK, 2)] False = False
   \<and> \<not> 2 \<le> card {d. \<exists>s \<in> set [shard_A, shard_B]. \<exists>n.
                   map_of cluster_ABC (node_of s) = Some n
                   \<and> isWritableStorageNode n \<and> d = domain_of RACK s n}"
proof -
  have v: "isValid [(RACK, 2)]" by (simp add: isValid_def)
  have abc: "validStorageSet cluster_ABC [shard_A, shard_B, shard_C] [(RACK, 2)] False = True"
    and ab: "validStorageSet cluster_ABC [shard_A, shard_B] [(RACK, 2)] False = False"
    by (simp_all add: validStorageSet_eval example_defs shard_defs)
  from validStorageSet_distinct_domains[OF v, of False "[shard_A, shard_B, shard_C]" cluster_ABC] abc
  have c3: "2 \<le> card {d. \<exists>s \<in> set [shard_A, shard_B, shard_C]. \<exists>n.
                   map_of cluster_ABC (node_of s) = Some n
                   \<and> isWritableStorageNode n \<and> d = domain_of RACK s n}"
    by simp
  from validStorageSet_distinct_domains[OF v, of False "[shard_A, shard_B]" cluster_ABC] ab
  have c2: "\<not> 2 \<le> card {d. \<exists>s \<in> set [shard_A, shard_B]. \<exists>n.
                   map_of cluster_ABC (node_of s) = Some n
                   \<and> isWritableStorageNode n \<and> d = domain_of RACK s n}"
    by simp
  from v abc ab c3 c2 show ?thesis by blast
qed

text \<open>
  The result depends on the strict flag, which the count of failure domains does not: a
  storage set with a shard in each of the two racks and a shard on an absent node passes
  in non-strict mode and fails in strict mode.
\<close>

theorem validStorageSet_strict_counterexample:
  "isValid [(RACK, 2)]
   \<and> validStorageSet cluster_ABC [shard_A, shard_C, shard_Z] [(RACK, 2)] False = True
   \<and> validStorageSet cluster_ABC [shard_A, shard_C, shard_Z] [(RACK, 2)] True = False"
  by (simp add: validStorageSet_eval example_defs shard_defs)

lemma eligible_domains_filter:
  "{d. \<exists>s \<in> set (filter (\<lambda>s. map_of ns (node_of s) \<noteq> None) ss). \<exists>n.
          map_of ns (node_of s) = Some n \<and> isWritableStorageNode n \<and> d = domain_of scope s n}
   = {d. \<exists>s \<in> set ss. \<exists>n.
          map_of ns (node_of s) = Some n \<and> isWritableStorageNode n \<and> d = domain_of scope s n}"
  by auto

text \<open>
  C3. When the storage set holds a shard whose node index is absent from the nodes map,
  \<open>validStorageSet\<close> returns false in strict mode; in non-strict mode its result is that
  of the check, strict or not, on the storage set without the shards on absent nodes.
\<close>

theorem validStorageSet_absent_node:
  assumes "\<exists>s \<in> set ss. map_of ns (node_of s) = None"
  shows "validStorageSet ns ss rep True = False
       \<and> validStorageSet ns ss rep False
           = validStorageSet ns (filter (\<lambda>s. map_of ns (node_of s) \<noteq> None) ss) rep False
       \<and> validStorageSet ns ss rep False
           = validStorageSet ns (filter (\<lambda>s. map_of ns (node_of s) \<noteq> None) ss) rep True"
proof -
  from assms have "validStorageSet ns ss rep True = False"
    by (simp add: validStorageSet_iff)
  moreover have "validStorageSet ns ss rep False
           = validStorageSet ns (filter (\<lambda>s. map_of ns (node_of s) \<noteq> None) ss) rep b" for b
  proof -
    let ?kept = "filter (\<lambda>s. map_of ns (node_of s) \<noteq> None) ss"
    have pres: "(b \<longrightarrow> (\<forall>s \<in> set ?kept. map_of ns (node_of s) \<noteq> None)) = True" by simp
    have "validStorageSet ns ?kept rep b =
       (isValid rep \<and> True
        \<and> (\<forall>(scope, required) \<in> set rep.
             required \<le> card {d. \<exists>s \<in> set ss. \<exists>n. map_of ns (node_of s) = Some n
                                    \<and> isWritableStorageNode n \<and> d = domain_of scope s n}))"
      unfolding validStorageSet_iff[of ns ?kept rep b] eligible_domains_filter pres ..
    moreover have "validStorageSet ns ss rep False =
       (isValid rep \<and> True
        \<and> (\<forall>(scope, required) \<in> set rep.
             required \<le> card {d. \<exists>s \<in> set ss. \<exists>n. map_of ns (node_of s) = Some n
                                    \<and> isWritableStorageNode n \<and> d = domain_of scope s n}))"
      unfolding validStorageSet_iff[of ns ss rep False] by simp
    ultimately show ?thesis by (simp only:)
  qed
  ultimately show ?thesis by blast
qed

theorem validStorageSet_absent_node_witness:
  "map_of cluster_ABC (node_of shard_Z) = None
   \<and> validStorageSet cluster_ABC [shard_A, shard_C, shard_Z] [(RACK, 2)] True = False
   \<and> validStorageSet cluster_ABC [shard_A, shard_C, shard_Z] [(RACK, 2)] False
       = validStorageSet cluster_ABC [shard_A, shard_C] [(RACK, 2)] False
   \<and> validStorageSet cluster_ABC [shard_A, shard_C, shard_Z] [(RACK, 2)] False
       = validStorageSet cluster_ABC [shard_A, shard_C] [(RACK, 2)] True
   \<and> validStorageSet cluster_ABC [shard_A, shard_C] [(RACK, 2)] True = True"
proof -
  have z: "map_of cluster_ABC (node_of shard_Z) = None" by (simp add: example_defs shard_defs)
  then have "\<exists>s \<in> set [shard_A, shard_C, shard_Z]. map_of cluster_ABC (node_of s) = None"
    by simp
  note absent = validStorageSet_absent_node[OF this, of "[(RACK, 2)]"]
  have kept: "filter (\<lambda>s. map_of cluster_ABC (node_of s) \<noteq> None) [shard_A, shard_C, shard_Z]
                = [shard_A, shard_C]"
    by (simp add: example_defs shard_defs)
  from absent[unfolded kept]
  have "validStorageSet cluster_ABC [shard_A, shard_C, shard_Z] [(RACK, 2)] True = False"
    and "validStorageSet cluster_ABC [shard_A, shard_C, shard_Z] [(RACK, 2)] False
       = validStorageSet cluster_ABC [shard_A, shard_C] [(RACK, 2)] False"
    and "validStorageSet cluster_ABC [shard_A, shard_C, shard_Z] [(RACK, 2)] False
       = validStorageSet cluster_ABC [shard_A, shard_C] [(RACK, 2)] True"
    by blast+
  moreover have "validStorageSet cluster_ABC [shard_A, shard_C] [(RACK, 2)] True = True"
    by (simp add: validStorageSet_eval example_defs shard_defs)
  ultimately show ?thesis using z by blast
qed

section \<open>Overlapping epoch ranges\<close>

lemma addEpochRange_overlap_iff:
  "(addEpochRange since until metadata plan = Inl CHECK_FAILED)
     = (\<exists>(r, m) \<in> set (epochsToRead plan). overlaps (since, until) r)"
  by (simp add: addEpochRange_def list_ex_iff)

text \<open>
  C2. When the plan holds an interval that overlaps \<open>[since, until)\<close>, \<open>addEpochRange\<close>
  aborts on the violated invariant and returns no plan. After the ranges \<open>[1, 10)\<close> and
  \<open>[10, 20)\<close> are added, adding \<open>[5, 15)\<close> is rejected.
\<close>

theorem addEpochRange_rejects_overlap:
  assumes "(r, m) \<in> set (epochsToRead plan)" and "overlaps (since, until) r"
  shows "addEpochRange since until metadata plan = Inl CHECK_FAILED"
  using assms by (auto simp: addEpochRange_overlap_iff)

theorem addEpochRange_rejects_overlap_witness:
  "addEpochRange 1 10 ''M1'' empty_plan
     = Inr \<lparr>untilLSN = 0, epochsToRead = [((1, 10), ''M1'')], smallestTimestamp = None\<rparr>
   \<and> addEpochRange 10 20 ''M2''
       \<lparr>untilLSN = 0, epochsToRead = [((1, 10), ''M1'')], smallestTimestamp = None\<rparr>
     = Inr \<lparr>untilLSN = 0, epochsToRead = [((1, 10), ''M1''), ((10, 20), ''M2'')],
            smallestTimestamp = None\<rparr>
   \<and> overlaps (5, 15) (1, 10)
   \<and> addEpochRange 5 15 ''M3''
       \<lparr>untilLSN = 0, epochsToRead = [((1, 10), ''M1''), ((10, 20), ''M2'')],
        smallestTimestamp = None\<rparr>
     = Inl CHECK_FAILED"
proof -
  let ?p2 = "\<lparr>untilLSN = 0, epochsToRead = [((1::nat, 10::nat), ''M1''), ((10, 20), ''M2'')],
        smallestTimestamp = None\<rparr>"
  have o: "overlaps (5, 15) (1, 10)" by (simp add: overlaps_def)
  have "((1, 10), ''M1'') \<in> set (epochsToRead ?p2)" by simp
  from addEpochRange_rejects_overlap[OF this o, of "''M3''"]
  have "addEpochRange 5 15 ''M3'' ?p2 = Inl CHECK_FAILED" .
  moreover have "addEpochRange 1 10 ''M1'' empty_plan
     = Inr \<lparr>untilLSN = 0, epochsToRead = [((1, 10), ''M1'')], smallestTimestamp = None\<rparr>"
    by (simp add: addEpochRange_def empty_plan_def overlaps_def)
  moreover have "addEpochRange 10 20 ''M2''
       \<lparr>untilLSN = 0, epochsToRead = [((1, 10), ''M1'')], smallestTimestamp = None\<rparr>
     = Inr ?p2"
    by (simp add: addEpochRange_def overlaps_def)
  ultimately show ?thesis using o by blast
qed

end
